theory Spec2Isabelle
  imports Complex_Main "HOL-Library.Word"
begin

section \<open>Common types\<close>

text \<open>
  A C \<^verbatim>\<open>float\<close> is carried as a real number. Values that are only
  stored or copied need nothing more. Where the program computes with floats
  (the division in \<^verbatim>\<open>SendFrame_RenderingThread\<close>) every
  operation is the exact operation followed by a rounding function \<open>rnd\<close>,
  which is a parameter of the model.
\<close>

type_synonym float = real

text \<open>Pointers are addresses; address 0 is \<^verbatim>\<open>nullptr\<close>.\<close>

type_synonym addr = nat

section \<open>FrameStream.cpp\<close>

datatype RSPixelFormat = RS_FMT_INVALID | RS_FMT_BGRA8 | RS_FMT_BGRX8 | RS_FMT_RGBA32F

text \<open>
  \<^verbatim>\<open>ProjectionClipping\<close>, and the engine's \<^verbatim>\<open>FIntPoint\<close> and
  \<^verbatim>\<open>FIntRect\<close> with their signed 32-bit coordinates. The members
  \<^verbatim>\<open>top\<close>, \<^verbatim>\<open>Min\<close> and \<^verbatim>\<open>Max\<close> carry a suffix.
\<close>

record ProjectionClipping =
  left :: float
  right :: float
  top_clip :: float
  bottom :: float

record FIntPoint =
  X :: "32 word"
  Y :: "32 word"

record FIntRect =
  Min_pt :: FIntPoint
  Max_pt :: FIntPoint

text \<open>
  Modelled from the spec: the type of the fence counter
  \<^verbatim>\<open>FFrameStream::m_fenceValue\<close>. The member is declared in
  FrameStream.h, which is not among the sources, so neither its width nor
  its signedness is known from the code; FrameStream.cpp only shows that it
  is handed to \<^verbatim>\<open>RSUCHelpers::SendFrame\<close> by value and then advanced
  by \<^verbatim>\<open>m_fenceValue += 2\<close>. The spec describes it as a "monotonically
  increasing counter; incremented by exactly 2 per frame submission", so the
  counter is an integer here.
\<close>

type_synonym fence_counter = int

text \<open>
  The members of \<^verbatim>\<open>FFrameStream\<close> that FrameStream.cpp reads and writes.
\<close>

record FFrameStream =
  m_streamName :: string
  m_channel :: string
  m_clipping :: ProjectionClipping
  m_bufTexture :: addr
  m_resolution :: FIntPoint
  m_handle :: "64 word"
  m_fence :: addr
  m_fenceValue :: fence_counter

text \<open>
  \<^verbatim>\<open>FRHITexture2D\<close>: \<^verbatim>\<open>GetSizeX\<close> and \<^verbatim>\<open>GetSizeY\<close> return
  \<^verbatim>\<open>uint32\<close>.
\<close>

record FRHITexture2D =
  GetSizeX :: "32 word"
  GetSizeY :: "32 word"

text \<open>
  The argument list of the one call of \<^verbatim>\<open>RSUCHelpers::SendFrame\<close>, the
  command list apart; the helper itself belongs to RSUCHelpers.inl and
  receives the fence value by value.
\<close>

record 'd SendFrame_call =
  Handle_arg :: "64 word"
  BufTexture_arg :: addr
  Fence_arg :: addr
  FenceValue_arg :: fence_counter
  FrameData_arg :: 'd
  SourceTexture_arg :: FRHITexture2D
  SizeXY_arg :: FIntPoint
  ULeftRight_arg :: "float \<times> float"
  VTopBottom_arg :: "float \<times> float"

text \<open>
  \<^verbatim>\<open>(float)i\<close> for a signed 32-bit \<open>i\<close>, \<^verbatim>\<open>(float)u\<close> for an
  unsigned 32-bit \<open>u\<close>, and the float division \<^verbatim>\<open>a / b\<close>. For
  \<open>b = 0\<close> the machine yields an infinity or a NaN, which this type does not
  have; nothing is stated about that case.
\<close>

definition float_of_int32 :: "(real \<Rightarrow> real) \<Rightarrow> 32 word \<Rightarrow> float" where
  "float_of_int32 rnd i = rnd (real_of_int (sint i))"

definition float_of_uint32 :: "(real \<Rightarrow> real) \<Rightarrow> 32 word \<Rightarrow> float" where
  "float_of_uint32 rnd u = rnd (real (unat u))"

definition float_div :: "(real \<Rightarrow> real) \<Rightarrow> float \<Rightarrow> float \<Rightarrow> float" where
  "float_div rnd a b = rnd (a / b)"

definition SendFrame_RenderingThread ::
  "(real \<Rightarrow> real) \<Rightarrow> 'd \<Rightarrow> FRHITexture2D \<Rightarrow> FIntRect \<Rightarrow> FFrameStream
    \<Rightarrow> 'd SendFrame_call \<times> FFrameStream" where
  "SendFrame_RenderingThread rnd FrameData SourceTexture ViewportRect s =
     (let ULeft = float_div rnd (float_of_int32 rnd (X (Min_pt ViewportRect)))
                                (float_of_uint32 rnd (GetSizeX SourceTexture));
          URight = float_div rnd (float_of_int32 rnd (X (Max_pt ViewportRect)))
                                 (float_of_uint32 rnd (GetSizeX SourceTexture));
          VTop = float_div rnd (float_of_int32 rnd (Y (Min_pt ViewportRect)))
                               (float_of_uint32 rnd (GetSizeY SourceTexture));
          VBottom = float_div rnd (float_of_int32 rnd (Y (Max_pt ViewportRect)))
                                  (float_of_uint32 rnd (GetSizeY SourceTexture));
          call = \<lparr> Handle_arg = m_handle s, BufTexture_arg = m_bufTexture s,
                   Fence_arg = m_fence s, FenceValue_arg = m_fenceValue s,
                   FrameData_arg = FrameData, SourceTexture_arg = SourceTexture,
                   SizeXY_arg = \<lparr> X = GetSizeX SourceTexture, Y = GetSizeY SourceTexture \<rparr>,
                   ULeftRight_arg = (ULeft, URight), VTopBottom_arg = (VTop, VBottom) \<rparr>
      in (call, s\<lparr> m_fenceValue := m_fenceValue s + 2 \<rparr>))"

text \<open>
  \<^verbatim>\<open>RSUCHelpers::CreateStreamResources(m_bufTexture, m_fence, m_resolution, fmt)\<close>
  belongs to RSUCHelpers.inl. It receives the texture and the fence by
  reference and reports success; it is a parameter here: from the two
  current values, the resolution and the format to the success flag and the
  two new values.
\<close>

type_synonym CreateStreamResources_fn =
  "addr \<Rightarrow> addr \<Rightarrow> FIntPoint \<Rightarrow> RSPixelFormat \<Rightarrow> bool \<times> addr \<times> addr"

datatype status_output =
    Error_Unable_to_create_stream
  | Connected_to_stream string

definition Setup ::
  "CreateStreamResources_fn \<Rightarrow> string \<Rightarrow> FIntPoint \<Rightarrow> string \<Rightarrow> ProjectionClipping
    \<Rightarrow> 64 word \<Rightarrow> RSPixelFormat \<Rightarrow> FFrameStream
    \<Rightarrow> bool \<times> FFrameStream \<times> status_output list" where
  "Setup CreateStreamResources name Resolution Channel Clipping Handle fmt s =
     (if m_handle s \<noteq> 0 then (False, s, [])
      else
        let s1 = s\<lparr> m_handle := Handle, m_channel := Channel, m_clipping := Clipping,
                    m_resolution := Resolution, m_streamName := name \<rparr>;
            (ok, tex, fence) =
               CreateStreamResources (m_bufTexture s1) (m_fence s1) (m_resolution s1) fmt;
            s2 = s1\<lparr> m_bufTexture := tex, m_fence := fence \<rparr>
        in if \<not> ok then (False, s2, [])
           else if m_handle s2 = 0 then (False, s2, [Error_Unable_to_create_stream])
           else (True, s2, [Connected_to_stream (m_streamName s2)]))"


text \<open>Inputs used in the examples below.\<close>

definition unbound_stream :: FFrameStream where
  "unbound_stream = \<lparr> m_streamName = '''', m_channel = '''',
       m_clipping = \<lparr>left = 0, right = 0, top_clip = 0, bottom = 0\<rparr>,
       m_bufTexture = 0, m_resolution = \<lparr>X = 0, Y = 0\<rparr>, m_handle = 0, m_fence = 0,
       m_fenceValue = 0 \<rparr>"

definition bound_stream :: FFrameStream where
  "bound_stream = \<lparr> m_streamName = ''wall'', m_channel = ''front'',
       m_clipping = \<lparr>left = 0, right = 1, top_clip = 0, bottom = 1\<rparr>,
       m_bufTexture = 10, m_resolution = \<lparr>X = 1920, Y = 1080\<rparr>, m_handle = 7, m_fence = 11,
       m_fenceValue = 0 \<rparr>"

definition full_clipping :: ProjectionClipping where
  "full_clipping = \<lparr>left = 0, right = 1, top_clip = 0, bottom = 1\<rparr>"

definition create_fails :: CreateStreamResources_fn where
  "create_fails tex fence res fmt = (False, tex, fence)"

definition create_succeeds :: CreateStreamResources_fn where
  "create_succeeds tex fence res fmt = (True, 100, 101)"

definition atlas_texture :: FRHITexture2D where
  "atlas_texture = \<lparr>GetSizeX = 3840, GetSizeY = 1080\<rparr>"

definition right_two_thirds :: FIntRect where
  "right_two_thirds = \<lparr>Min_pt = \<lparr>X = 1280, Y = 0\<rparr>, Max_pt = \<lparr>X = 3840, Y = 1080\<rparr>\<rparr>"

text \<open>A rounding that loses precision: to the nearest multiple of one eighth.\<close>

definition round_eighths :: "real \<Rightarrow> real" where
  "round_eighths x = real_of_int \<lfloor>x * 8 + 1 / 2\<rfloor> / 8"

definition right_half :: FIntRect where
  "right_half = \<lparr>Min_pt = \<lparr>X = 1920, Y = 0\<rparr>, Max_pt = \<lparr>X = 3840, Y = 1080\<rparr>\<rparr>"

section \<open>RenderStreamLink.h: the schema and its owner\<close>

text \<open>
  The C structs of the schema, with their pointer members as addresses.
  \<^verbatim>\<open>Schema\<close> nests \<^verbatim>\<open>Channels\<close> and \<^verbatim>\<open>Scenes\<close>; the two are
  flattened here, so that \<open>nChannels s\<close> is \<^verbatim>\<open>s.channels.nChannels\<close> and
  \<open>channels s\<close> is \<^verbatim>\<open>s.channels.channels\<close>, and the same for the scenes.
\<close>

record RemoteParameter =
  group :: addr
  displayName :: addr
  key :: addr
  min_value :: float
  max_value :: float
  step :: float
  defaultValue :: float
  nOptions :: "32 word"
  options :: addr
  dmxOffset :: "32 word"
  dmxType :: "32 word"

record RemoteParameters =
  name :: addr
  nParameters :: "32 word"
  parameters :: addr
  hash :: "64 word"

record Schema =
  nChannels :: "32 word"
  channels :: addr
  nScenes :: "32 word"
  scenes :: addr

subsection \<open>The C heap\<close>

text \<open>
  One block for every allocation made with \<^verbatim>\<open>malloc\<close> or
  \<^verbatim>\<open>_strdup\<close>: a string, or an array of pointers, of
  \<^verbatim>\<open>RemoteParameter\<close> or of \<^verbatim>\<open>RemoteParameters\<close>. A cell of an array
  is \<open>None\<close> until it has been written. The heap maps the address of every
  live block to the block; \<open>brk\<close> is the next address \<^verbatim>\<open>malloc\<close> hands
  out.
\<close>

datatype block =
    CString string
  | PtrArray "addr option list"
  | ParameterArray "RemoteParameter option list"
  | SceneArray "RemoteParameters option list"

type_synonym heap = "addr \<rightharpoonup> block"

datatype mem_error =
    InvalidFree addr
  | InvalidAccess addr

text \<open>\<^verbatim>\<open>free(p)\<close>: nothing for a null pointer; an error for an address that is not live.\<close>

definition free :: "addr \<Rightarrow> heap \<Rightarrow> mem_error + heap" where
  "free p h =
     (if p = 0 then Inr h
      else case h p of None \<Rightarrow> Inl (InvalidFree p) | Some b \<Rightarrow> Inr (h(p := None)))"

text \<open>\<^verbatim>\<open>p[i]\<close> for the three kinds of array.\<close>

definition load_ptr :: "heap \<Rightarrow> addr \<Rightarrow> nat \<Rightarrow> mem_error + addr" where
  "load_ptr h p i =
     (if p = 0 then Inl (InvalidAccess p)
      else case h p of
        Some (PtrArray xs) \<Rightarrow>
          (if i < length xs then
             (case xs ! i of Some a \<Rightarrow> Inr a | None \<Rightarrow> Inl (InvalidAccess p))
           else Inl (InvalidAccess p))
      | _ \<Rightarrow> Inl (InvalidAccess p))"

definition load_parameter :: "heap \<Rightarrow> addr \<Rightarrow> nat \<Rightarrow> mem_error + RemoteParameter" where
  "load_parameter h p i =
     (if p = 0 then Inl (InvalidAccess p)
      else case h p of
        Some (ParameterArray xs) \<Rightarrow>
          (if i < length xs then
             (case xs ! i of Some a \<Rightarrow> Inr a | None \<Rightarrow> Inl (InvalidAccess p))
           else Inl (InvalidAccess p))
      | _ \<Rightarrow> Inl (InvalidAccess p))"

definition load_scene :: "heap \<Rightarrow> addr \<Rightarrow> nat \<Rightarrow> mem_error + RemoteParameters" where
  "load_scene h p i =
     (if p = 0 then Inl (InvalidAccess p)
      else case h p of
        Some (SceneArray xs) \<Rightarrow>
          (if i < length xs then
             (case xs ! i of Some a \<Rightarrow> Inr a | None \<Rightarrow> Inl (InvalidAccess p))
           else Inl (InvalidAccess p))
      | _ \<Rightarrow> Inl (InvalidAccess p))"

subsection \<open>\<^verbatim>\<open>ScopedSchema\<close>\<close>

text \<open>
  \<^verbatim>\<open>ScopedSchema\<close> has the one member \<^verbatim>\<open>schema\<close>, so an object is its
  \<^verbatim>\<open>Schema\<close> value. The loops of \<^verbatim>\<open>reset\<close> run over a count that is read
  when the loop is entered; every iteration reads its element through the
  heap again, as the references \<^verbatim>\<open>scene\<close> and \<^verbatim>\<open>parameter\<close> do. Since
  \<^verbatim>\<open>reset\<close> writes to no block, re-reading the count would give the same
  number or fail at the same read.
\<close>

definition clear :: Schema where
  "clear = \<lparr> nChannels = 0, channels = 0, nScenes = 0, scenes = 0 \<rparr>"

text \<open>\<^verbatim>\<open>for (k = i; k < i + n; ++k) free(p[k]);\<close>\<close>

primrec free_strings :: "addr \<Rightarrow> nat \<Rightarrow> nat \<Rightarrow> heap \<Rightarrow> mem_error + heap" where
  "free_strings p i 0 h = Inr h"
| "free_strings p i (Suc n) h =
     (case load_ptr h p i of Inl e \<Rightarrow> Inl e | Inr a \<Rightarrow>
      case free a h of Inl e \<Rightarrow> Inl e | Inr h1 \<Rightarrow>
      free_strings p (Suc i) n h1)"

text \<open>The body of the loop over \<open>j\<close>, for the parameter \<^verbatim>\<open>scene.parameters[j]\<close>.\<close>

definition free_parameter :: "addr \<Rightarrow> nat \<Rightarrow> heap \<Rightarrow> mem_error + heap" where
  "free_parameter p j h =
     (case load_parameter h p j of Inl e \<Rightarrow> Inl e | Inr q0 \<Rightarrow>
      case free (group q0) h of Inl e \<Rightarrow> Inl e | Inr h1 \<Rightarrow>
      case load_parameter h1 p j of Inl e \<Rightarrow> Inl e | Inr q1 \<Rightarrow>
      case free (displayName q1) h1 of Inl e \<Rightarrow> Inl e | Inr h2 \<Rightarrow>
      case load_parameter h2 p j of Inl e \<Rightarrow> Inl e | Inr q2 \<Rightarrow>
      case free (key q2) h2 of Inl e \<Rightarrow> Inl e | Inr h3 \<Rightarrow>
      case load_parameter h3 p j of Inl e \<Rightarrow> Inl e | Inr q3 \<Rightarrow>
      case free_strings (options q3) 0 (unat (nOptions q3)) h3 of Inl e \<Rightarrow> Inl e | Inr h4 \<Rightarrow>
      case load_parameter h4 p j of Inl e \<Rightarrow> Inl e | Inr q4 \<Rightarrow>
      free (options q4) h4)"

primrec free_parameters :: "addr \<Rightarrow> nat \<Rightarrow> nat \<Rightarrow> heap \<Rightarrow> mem_error + heap" where
  "free_parameters p j 0 h = Inr h"
| "free_parameters p j (Suc n) h =
     (case free_parameter p j h of Inl e \<Rightarrow> Inl e | Inr h1 \<Rightarrow>
      free_parameters p (Suc j) n h1)"

text \<open>The body of the loop over \<open>i\<close>, for the scene \<^verbatim>\<open>schema.scenes.scenes[i]\<close>.\<close>

definition free_scene :: "addr \<Rightarrow> nat \<Rightarrow> heap \<Rightarrow> mem_error + heap" where
  "free_scene p i h =
     (case load_scene h p i of Inl e \<Rightarrow> Inl e | Inr s0 \<Rightarrow>
      case free (name s0) h of Inl e \<Rightarrow> Inl e | Inr h1 \<Rightarrow>
      case load_scene h1 p i of Inl e \<Rightarrow> Inl e | Inr s1 \<Rightarrow>
      case free_parameters (parameters s1) 0 (unat (nParameters s1)) h1 of
        Inl e \<Rightarrow> Inl e | Inr h2 \<Rightarrow>
      case load_scene h2 p i of Inl e \<Rightarrow> Inl e | Inr s2 \<Rightarrow>
      free (parameters s2) h2)"

primrec free_scenes :: "addr \<Rightarrow> nat \<Rightarrow> nat \<Rightarrow> heap \<Rightarrow> mem_error + heap" where
  "free_scenes p i 0 h = Inr h"
| "free_scenes p i (Suc n) h =
     (case free_scene p i h of Inl e \<Rightarrow> Inl e | Inr h1 \<Rightarrow>
      free_scenes p (Suc i) n h1)"

text \<open>\<^verbatim>\<open>reset()\<close> on the object \<open>s\<close>: the object afterwards and the heap afterwards.\<close>

definition reset :: "Schema \<Rightarrow> heap \<Rightarrow> mem_error + Schema \<times> heap" where
  "reset s h =
     (case free_strings (channels s) 0 (unat (nChannels s)) h of Inl e \<Rightarrow> Inl e | Inr h1 \<Rightarrow>
      case free (channels s) h1 of Inl e \<Rightarrow> Inl e | Inr h2 \<Rightarrow>
      case free_scenes (scenes s) 0 (unat (nScenes s)) h2 of Inl e \<Rightarrow> Inl e | Inr h3 \<Rightarrow>
      case free (scenes s) h3 of Inl e \<Rightarrow> Inl e | Inr h4 \<Rightarrow>
      Inr (clear, h4))"

text \<open>The default constructor and the destructor.\<close>

definition ScopedSchema_new :: Schema where
  "ScopedSchema_new = clear"

definition ScopedSchema_delete :: "Schema \<Rightarrow> heap \<Rightarrow> mem_error + heap" where
  "ScopedSchema_delete s h = (case reset s h of Inl e \<Rightarrow> Inl e | Inr (s', h') \<Rightarrow> Inr h')"

text \<open>
  The move constructor, \<^verbatim>\<open>schema = std::move(other.schema); other.reset();\<close>.
  \<^verbatim>\<open>Schema\<close> is a plain struct, so the move is a copy of its four members.
  The result is the new object, \<open>other\<close> afterwards, and the heap.
\<close>

definition ScopedSchema_move :: "Schema \<Rightarrow> heap \<Rightarrow> mem_error + Schema \<times> Schema \<times> heap" where
  "ScopedSchema_move other h =
     (let this = other
      in case reset other h of Inl e \<Rightarrow> Inl e | Inr (other', h') \<Rightarrow> Inr (this, other', h'))"

text \<open>
  Move assignment to the object \<open>this\<close> from a different object \<open>other\<close>; the
  body is that of the move constructor, and the members \<open>this\<close> held before
  are overwritten.
\<close>

definition ScopedSchema_move_assign ::
  "Schema \<Rightarrow> Schema \<Rightarrow> heap \<Rightarrow> mem_error + Schema \<times> Schema \<times> heap" where
  "ScopedSchema_move_assign this other h =
     (let this1 = other
      in case reset other h of Inl e \<Rightarrow> Inl e | Inr (other', h') \<Rightarrow> Inr (this1, other', h'))"

subsection \<open>What a schema owns\<close>

text \<open>
  The first \<open>n\<close> cells of the array at \<open>p\<close>, if the array is live, has that
  many cells and all of them are written. No array is needed for \<open>n = 0\<close>.
\<close>

definition ptr_cells :: "heap \<Rightarrow> addr \<Rightarrow> nat \<Rightarrow> addr list option" where
  "ptr_cells h p n =
     (if n = 0 then Some []
      else if p = 0 then None
      else case h p of
        Some (PtrArray xs) \<Rightarrow> if n \<le> length xs then those (take n xs) else None
      | _ \<Rightarrow> None)"

definition parameter_cells :: "heap \<Rightarrow> addr \<Rightarrow> nat \<Rightarrow> RemoteParameter list option" where
  "parameter_cells h p n =
     (if n = 0 then Some []
      else if p = 0 then None
      else case h p of
        Some (ParameterArray xs) \<Rightarrow> if n \<le> length xs then those (take n xs) else None
      | _ \<Rightarrow> None)"

definition scene_cells :: "heap \<Rightarrow> addr \<Rightarrow> nat \<Rightarrow> RemoteParameters list option" where
  "scene_cells h p n =
     (if n = 0 then Some []
      else if p = 0 then None
      else case h p of
        Some (SceneArray xs) \<Rightarrow> if n \<le> length xs then those (take n xs) else None
      | _ \<Rightarrow> None)"

text \<open>
  The pointers a parameter, a scene and a schema hold, null pointers
  included: every string and every array that the data model says the tree
  owns.
\<close>

definition parameter_pointers :: "heap \<Rightarrow> RemoteParameter \<Rightarrow> addr list option" where
  "parameter_pointers h q =
     map_option (\<lambda>os. [group q, displayName q, key q] @ os @ [options q])
       (ptr_cells h (options q) (unat (nOptions q)))"

definition scene_pointers :: "heap \<Rightarrow> RemoteParameters \<Rightarrow> addr list option" where
  "scene_pointers h sc =
     (case parameter_cells h (parameters sc) (unat (nParameters sc)) of
        None \<Rightarrow> None
      | Some qs \<Rightarrow>
          map_option (\<lambda>ps. [name sc] @ concat ps @ [parameters sc])
            (those (map (parameter_pointers h) qs)))"

definition schema_pointers :: "heap \<Rightarrow> Schema \<Rightarrow> addr list option" where
  "schema_pointers h s =
     (case ptr_cells h (channels s) (unat (nChannels s)) of
        None \<Rightarrow> None
      | Some cs \<Rightarrow>
          (case scene_cells h (scenes s) (unat (nScenes s)) of
             None \<Rightarrow> None
           | Some scs \<Rightarrow>
               map_option (\<lambda>ps. cs @ [channels s] @ concat ps @ [scenes s])
                 (those (map (scene_pointers h) scs))))"

text \<open>
  The allocations of a schema are its non-null pointers. The schema owns them
  when each is live and no two of its pointers are the same allocation.
\<close>

definition allocations :: "addr list \<Rightarrow> addr list" where
  "allocations ps = filter (\<lambda>a. a \<noteq> 0) ps"

definition owns :: "heap \<Rightarrow> Schema \<Rightarrow> addr list \<Rightarrow> bool" where
  "owns h s as =
     (case schema_pointers h s of
        None \<Rightarrow> False
      | Some ps \<Rightarrow> as = allocations ps \<and> distinct as \<and> (list_all (\<lambda>a. h a \<noteq> None) as))"

text \<open>Inputs used in the examples below: two schemas in one heap.\<close>

definition example_heap :: heap where
  "example_heap =
     [1 \<mapsto> PtrArray [Some 2],
      2 \<mapsto> CString ''front'',
      3 \<mapsto> SceneArray [Some \<lparr> name = 4, nParameters = 1, parameters = 5, hash = 0 \<rparr>],
      4 \<mapsto> CString ''Forest'',
      5 \<mapsto> ParameterArray [Some \<lparr> group = 6, displayName = 7, key = 8, min_value = 0,
             max_value = 1, step = 1, defaultValue = 0, nOptions = 2, options = 9,
             dmxOffset = - 1, dmxType = 2 \<rparr>],
      6 \<mapsto> CString ''Lights'',
      7 \<mapsto> CString ''Fog'',
      8 \<mapsto> CString ''fog'',
      9 \<mapsto> PtrArray [Some 10, Some 11],
      10 \<mapsto> CString ''Off'',
      11 \<mapsto> CString ''On'',
      20 \<mapsto> PtrArray [Some 21],
      21 \<mapsto> CString ''back'']"

definition example_schema :: Schema where
  "example_schema = \<lparr> nChannels = 1, channels = 1, nScenes = 1, scenes = 3 \<rparr>"

definition other_schema :: Schema where
  "other_schema = \<lparr> nChannels = 1, channels = 20, nScenes = 0, scenes = 0 \<rparr>"

text \<open>The heap without the blocks at the addresses \<open>as\<close>.\<close>

definition released :: "addr list \<Rightarrow> heap \<Rightarrow> heap" where
  "released as h = (\<lambda>a. if a \<in> set as then None else h a)"

section \<open>SceneSelector\_StreamingLevels.cpp\<close>

text \<open>
  An \<^verbatim>\<open>AActor*\<close> and a \<^verbatim>\<open>ULevelStreaming*\<close> are addresses, 0 for
  \<^verbatim>\<open>nullptr\<close>. Of a streaming level the selector uses its package name,
  the prefix of its world (\<open>None\<close> when \<^verbatim>\<open>GetWorld()\<close> is null), whether
  the level is loaded, its level script actor and the visibility flag set by
  \<^verbatim>\<open>SetShouldBeVisible\<close>. Of the world it uses the script actor of the
  persistent level and the array of streaming levels.
\<close>

type_synonym actor = addr

record ULevelStreaming =
  WorldAssetPackageName :: string
  StreamingLevelsPrefix :: "string option"
  IsLevelLoaded :: bool
  LevelScriptActor :: actor
  ShouldBeVisible :: bool

record UWorld =
  PersistentLevelScriptActor :: actor
  StreamingLevels :: "addr list"

text \<open>
  \<^verbatim>\<open>SchemaSpec\<close> is declared in SceneSelector.h; these are the members the
  selector uses. Its members \<^verbatim>\<open>hash\<close> and \<^verbatim>\<open>nParameters\<close> have the
  names of members of \<^verbatim>\<open>RemoteParameters\<close> and carry a prefix here.
\<close>

record SchemaSpec =
  streamingLevel :: addr
  persistentRoot :: actor
  spec_hash :: "64 word"
  spec_nParameters :: "32 word"
  loaded :: bool

text \<open>
  The selector: its vector \<^verbatim>\<open>m_specs\<close> and the schema that the accessor
  \<^verbatim>\<open>Schema()\<close> of the base class returns.
\<close>

record SceneSelector =
  m_specs :: "SchemaSpec list"
  Schema_stored :: Schema

text \<open>
  What the selector does to its surroundings: the log lines it writes, the
  calls it makes to the engine and to the base class, in order. The call
  \<^verbatim>\<open>UGameplayStatics::LoadStreamLevel(&World, name, true, true, LatentInfo)\<close>
  is recorded with the level name and the two flags of the engine's
  signature, \<^verbatim>\<open>bMakeVisibleAfterLoad\<close> and \<^verbatim>\<open>bShouldBlockOnLoad\<close>.
\<close>

datatype event =
    Log_Skipping_validation string
  | Error_scene_id nat nat
  | Log_Loading_level string
  | LoadStreamLevel (LevelName: string) (bMakeVisibleAfterLoad: bool) (bShouldBlockOnLoad: bool)
  | Log_Validating_schema string "32 word"
  | Error_Failed_to_validate string
  | ApplyParameters nat "actor list"

record Surroundings =
  Levels :: "addr \<rightharpoonup> ULevelStreaming"
  Trace :: "event list"

text \<open>
  Functions of the engine, which are parameters:
  \<^verbatim>\<open>FPackageName::GetShortName\<close>, \<^verbatim>\<open>FString::RemoveFromStart\<close> (the
  string, then the prefix), the comparison \<^verbatim>\<open>==\<close> of \<^verbatim>\<open>FString\<close>;
  \<^verbatim>\<open>UGameplayStatics::LoadStreamLevel\<close>, which receives the world and is
  free to change its streaming levels: from the level name, the two flags
  and the streaming levels before the call to the streaming levels when it
  returns; and the reflection system of the host: the parameter count and
  the hash that introspection of the exposed properties of a list of roots
  produces.
\<close>

record Engine =
  GetShortName :: "string \<Rightarrow> string"
  RemoveFromStart :: "string \<Rightarrow> string \<Rightarrow> string"
  FString_equal :: "string \<Rightarrow> string \<Rightarrow> bool"
  UGameplayStatics_LoadStreamLevel ::
    "string \<Rightarrow> bool \<Rightarrow> bool \<Rightarrow> (addr \<rightharpoonup> ULevelStreaming) \<Rightarrow> (addr \<rightharpoonup> ULevelStreaming)"
  IntrospectedCount :: "actor list \<Rightarrow> 32 word"
  IntrospectedHash :: "actor list \<Rightarrow> 64 word"

text \<open>
  Modelled from the spec: \<^verbatim>\<open>SceneSelector::ValidateParameters\<close>, a member
  of the base class defined in SceneSelector.cpp, which is not among the
  sources; \<^verbatim>\<open>ValidateLevel\<close> calls it with the scene of the schema and
  the two roots. The spec: "compare declared parameter count/hash against
  what local introspection of the content's exposed tunables would produce".
\<close>

definition ValidateParameters :: "Engine \<Rightarrow> RemoteParameters \<Rightarrow> actor list \<Rightarrow> bool" where
  "ValidateParameters E sceneParameters Actors =
     (nParameters sceneParameters = IntrospectedCount E Actors
      \<and> hash sceneParameters = IntrospectedHash E Actors)"

datatype fault =
    CheckFailed
  | BadAccess mem_error
  | BadLevel addr
  | BadIndex nat

text \<open>Reading through a pointer to a streaming level, and a C string of the schema.\<close>

definition deref_level :: "(addr \<rightharpoonup> ULevelStreaming) \<Rightarrow> addr \<Rightarrow> fault + ULevelStreaming" where
  "deref_level ls p =
     (if p = 0 then Inl (BadLevel p)
      else case ls p of None \<Rightarrow> Inl (BadLevel p) | Some lv \<Rightarrow> Inr lv)"

definition load_string :: "heap \<Rightarrow> addr \<Rightarrow> fault + string" where
  "load_string h p =
     (if p = 0 then Inl (BadAccess (InvalidAccess p))
      else case h p of Some (CString s) \<Rightarrow> Inr s | _ \<Rightarrow> Inl (BadAccess (InvalidAccess p)))"

definition scene_at :: "heap \<Rightarrow> Schema \<Rightarrow> nat \<Rightarrow> fault + RemoteParameters" where
  "scene_at h S i =
     (case load_scene h (scenes S) i of Inl e \<Rightarrow> Inl (BadAccess e) | Inr sc \<Rightarrow> Inr sc)"

text \<open>\<^verbatim>\<open>findStreamingLevelByName\<close>, over the array of streaming levels of the world.\<close>

primrec find_level ::
  "Engine \<Rightarrow> (addr \<rightharpoonup> ULevelStreaming) \<Rightarrow> addr list \<Rightarrow> string \<Rightarrow> fault + addr" where
  "find_level E ls [] FindName = Inr 0"
| "find_level E ls (p # ps) FindName =
     (case deref_level ls p of Inl e \<Rightarrow> Inl e | Inr lv \<Rightarrow>
        let LevelName0 = GetShortName E (WorldAssetPackageName lv);
            LevelName = (case StreamingLevelsPrefix lv of
                           None \<Rightarrow> LevelName0
                         | Some prefix \<Rightarrow> RemoveFromStart E LevelName0 prefix)
        in if FString_equal E FindName LevelName then Inr p
           else find_level E ls ps FindName)"

definition findStreamingLevelByName ::
  "Engine \<Rightarrow> (addr \<rightharpoonup> ULevelStreaming) \<Rightarrow> UWorld \<Rightarrow> string \<Rightarrow> fault + addr" where
  "findStreamingLevelByName E ls World FindName = find_level E ls (StreamingLevels World) FindName"

text \<open>
  \<^verbatim>\<open>ValidateLevel(sceneId)\<close>. The scene is read from \<^verbatim>\<open>Schema()\<close>, the
  spec from \<^verbatim>\<open>m_specs\<close>; an index outside the vector is a fault.
\<close>

definition ValidateLevel ::
  "Engine \<Rightarrow> heap \<Rightarrow> nat \<Rightarrow> SceneSelector \<Rightarrow> Surroundings \<Rightarrow> fault + bool \<times> Surroundings" where
  "ValidateLevel E h sceneId sel sur =
     (case scene_at h (Schema_stored sel) sceneId of Inl e \<Rightarrow> Inl e | Inr params \<Rightarrow>
      if sceneId \<ge> length (m_specs sel) then Inl (BadIndex sceneId)
      else
        let spec = m_specs sel ! sceneId
        in case load_string h (name params) of Inl e \<Rightarrow> Inl e | Inr scene_name \<Rightarrow>
           let sur1 = sur\<lparr> Trace := Trace sur
                        @ [Log_Validating_schema scene_name (nParameters params)] \<rparr>
           in case (if streamingLevel spec \<noteq> 0
                    then (case deref_level (Levels sur1) (streamingLevel spec) of
                            Inl e \<Rightarrow> Inl e | Inr lv \<Rightarrow> Inr (LevelScriptActor lv))
                    else Inr 0) of
                Inl e \<Rightarrow> Inl e
              | Inr levelRoot \<Rightarrow>
                  if \<not> ValidateParameters E params [persistentRoot spec, levelRoot]
                  then Inr (False, sur1\<lparr> Trace := Trace sur1
                                        @ [Error_Failed_to_validate scene_name] \<rparr>)
                  else Inr (True, sur1))"

text \<open>\<^verbatim>\<open>std::vector::resize\<close>, with the value of a fresh element given.\<close>

definition resize :: "nat \<Rightarrow> 'a \<Rightarrow> 'a list \<Rightarrow> 'a list" where
  "resize n x xs = take n xs @ replicate (n - length xs) x"

text \<open>The body of the loop of \<^verbatim>\<open>OnLoadedSchema\<close>, for the scene \<open>i\<close>.\<close>

definition OnLoadedSchema_scene ::
  "Engine \<Rightarrow> heap \<Rightarrow> UWorld \<Rightarrow> Schema \<Rightarrow> actor \<Rightarrow> nat \<Rightarrow> SceneSelector \<times> Surroundings
    \<Rightarrow> fault + SceneSelector \<times> Surroundings" where
  "OnLoadedSchema_scene E h World S proot i st =
     (case st of (sel, sur) \<Rightarrow>
      case scene_at h S i of Inl e \<Rightarrow> Inl e | Inr params \<Rightarrow>
      case load_string h (name params) of Inl e \<Rightarrow> Inl e | Inr SceneName \<Rightarrow>
      case findStreamingLevelByName E (Levels sur) World SceneName of
        Inl e \<Rightarrow> Inl e
      | Inr level \<Rightarrow>
      if i \<ge> length (m_specs sel) then Inl (BadIndex i)
      else
        let spec = (m_specs sel ! i)\<lparr> streamingLevel := level, persistentRoot := proot,
                     spec_hash := hash params, spec_nParameters := nParameters params \<rparr>;
            sel1 = sel\<lparr> m_specs := (m_specs sel)[i := spec] \<rparr>
        in case (if level = 0 then Inr True
                 else case deref_level (Levels sur) level of
                        Inl e \<Rightarrow> Inl e | Inr lv \<Rightarrow> Inr (IsLevelLoaded lv)) of
             Inl e \<Rightarrow> Inl e
           | Inr ready \<Rightarrow>
               if ready then
                 let sel2 = sel1\<lparr> m_specs := (m_specs sel1)[i := spec\<lparr> loaded := True \<rparr>] \<rparr>
                 in case ValidateLevel E h i sel2 sur of
                      Inl e \<Rightarrow> Inl e
                    | Inr (ok, sur1) \<Rightarrow> Inr (sel2, sur1)
               else
                 case scene_at h S i of Inl e \<Rightarrow> Inl e | Inr params1 \<Rightarrow>
                 case load_string h (name params1) of Inl e \<Rightarrow> Inl e | Inr n1 \<Rightarrow>
                 Inr (sel1, sur\<lparr> Trace := Trace sur @ [Log_Skipping_validation n1] \<rparr>))"

text \<open>\<^verbatim>\<open>for (i = i0; i < i0 + n; ++i)\<close> over that body.\<close>

primrec OnLoadedSchema_loop ::
  "Engine \<Rightarrow> heap \<Rightarrow> UWorld \<Rightarrow> Schema \<Rightarrow> actor \<Rightarrow> nat \<Rightarrow> nat \<Rightarrow> SceneSelector \<times> Surroundings
    \<Rightarrow> fault + SceneSelector \<times> Surroundings" where
  "OnLoadedSchema_loop E h World S proot i 0 st = Inr st"
| "OnLoadedSchema_loop E h World S proot i (Suc n) st =
     (case OnLoadedSchema_scene E h World S proot i st of
        Inl e \<Rightarrow> Inl e
      | Inr st1 \<Rightarrow> OnLoadedSchema_loop E h World S proot (Suc i) n st1)"

text \<open>
  \<^verbatim>\<open>OnLoadedSchema(World, Schema)\<close>. \<open>fresh\<close> is the value of a
  default-constructed \<^verbatim>\<open>SchemaSpec\<close>, which SceneSelector.h determines.
\<close>

definition OnLoadedSchema ::
  "Engine \<Rightarrow> SchemaSpec \<Rightarrow> heap \<Rightarrow> UWorld \<Rightarrow> Schema \<Rightarrow> SceneSelector \<Rightarrow> Surroundings
    \<Rightarrow> fault + bool \<times> SceneSelector \<times> Surroundings" where
  "OnLoadedSchema E fresh h World S sel sur =
     (let proot = PersistentLevelScriptActor World;
          sel1 = sel\<lparr> m_specs := resize (unat (nScenes S)) fresh (m_specs sel) \<rparr>
      in case OnLoadedSchema_loop E h World S proot 0 (unat (nScenes S)) (sel1, sur) of
           Inl e \<Rightarrow> Inl e
         | Inr (sel2, sur2) \<Rightarrow> Inr (True, sel2, sur2))"

text \<open>\<^verbatim>\<open>streamingLevel->SetShouldBeVisible(b)\<close>.\<close>

definition SetShouldBeVisible :: "addr \<Rightarrow> bool \<Rightarrow> Surroundings \<Rightarrow> fault + Surroundings" where
  "SetShouldBeVisible p b sur =
     (case deref_level (Levels sur) p of
        Inl e \<Rightarrow> Inl e
      | Inr lv \<Rightarrow> Inr (sur\<lparr> Levels := (Levels sur)(p \<mapsto> lv\<lparr> ShouldBeVisible := b \<rparr>) \<rparr>))"

text \<open>The loop of the base-level branch of \<^verbatim>\<open>ApplyScene\<close>: every level is hidden.\<close>

primrec hide_levels :: "addr list \<Rightarrow> Surroundings \<Rightarrow> fault + Surroundings" where
  "hide_levels [] sur = Inr sur"
| "hide_levels (p # ps) sur =
     (case SetShouldBeVisible p False sur of Inl e \<Rightarrow> Inl e | Inr sur1 \<Rightarrow> hide_levels ps sur1)"

text \<open>The loop of the other branch, for the scene \<open>sceneId\<close> with the spec \<open>spec\<close>.\<close>

primrec show_level :: "SchemaSpec \<Rightarrow> nat \<Rightarrow> addr list \<Rightarrow> Surroundings \<Rightarrow> fault + Surroundings" where
  "show_level spec sceneId [] sur = Inr sur"
| "show_level spec sceneId (p # ps) sur =
     (case (if streamingLevel spec = p then
              (case deref_level (Levels sur) p of
                 Inl e \<Rightarrow> Inl e
               | Inr lv \<Rightarrow>
                   if \<not> IsLevelLoaded lv then Inr sur
                   else
                     (case SetShouldBeVisible p True sur of
                        Inl e \<Rightarrow> Inl e
                      | Inr sur1 \<Rightarrow>
                          (case deref_level (Levels sur1) p of
                             Inl e \<Rightarrow> Inl e
                           | Inr lv1 \<Rightarrow>
                               Inr (sur1\<lparr> Trace := Trace sur1
                                      @ [ApplyParameters sceneId
                                           [persistentRoot spec, LevelScriptActor lv1]] \<rparr>))))
            else if streamingLevel spec \<noteq> 0 then SetShouldBeVisible p False sur
            else Inr sur) of
        Inl e \<Rightarrow> Inl e
      | Inr sur1 \<Rightarrow> show_level spec sceneId ps sur1)"

text \<open>\<^verbatim>\<open>ApplyScene\<close> from the line that reads the persistent root on.\<close>

definition ApplyScene_activate ::
  "UWorld \<Rightarrow> nat \<Rightarrow> SceneSelector \<Rightarrow> Surroundings \<Rightarrow> fault + SceneSelector \<times> Surroundings" where
  "ApplyScene_activate World sceneId sel sur =
     (let spec = m_specs sel ! sceneId;
          proot = PersistentLevelScriptActor World
      in if streamingLevel spec = 0 \<and> persistentRoot spec = proot then
           (case hide_levels (StreamingLevels World)
                   (sur\<lparr> Trace := Trace sur @ [ApplyParameters sceneId [proot]] \<rparr>) of
              Inl e \<Rightarrow> Inl e | Inr sur1 \<Rightarrow> Inr (sel, sur1))
         else
           (case show_level spec sceneId (StreamingLevels World) sur of
              Inl e \<Rightarrow> Inl e | Inr sur1 \<Rightarrow> Inr (sel, sur1)))"

text \<open>
  \<^verbatim>\<open>ApplyScene(World, sceneId)\<close>. The macro \<^verbatim>\<open>check\<close> that fails is the
  fault \<open>CheckFailed\<close>. The call of \<^verbatim>\<open>LoadStreamLevel\<close> is recorded
  with its two flags as the source passes them, both \<^verbatim>\<open>true\<close>, and the
  streaming levels at the return are those the engine leaves.
\<close>

definition ApplyScene ::
  "Engine \<Rightarrow> heap \<Rightarrow> UWorld \<Rightarrow> 32 word \<Rightarrow> SceneSelector \<Rightarrow> Surroundings
    \<Rightarrow> fault + SceneSelector \<times> Surroundings" where
  "ApplyScene E h World sceneId sel sur =
     (if unat sceneId \<ge> length (m_specs sel) then
        Inr (sel, sur\<lparr> Trace := Trace sur
                        @ [Error_scene_id (unat sceneId) (length (m_specs sel))] \<rparr>)
      else
        let spec = m_specs sel ! unat sceneId
        in if \<not> loaded spec then
             (if streamingLevel spec = 0 then Inl CheckFailed
              else case deref_level (Levels sur) (streamingLevel spec) of
                Inl e \<Rightarrow> Inl e
              | Inr lv \<Rightarrow>
                  if \<not> IsLevelLoaded lv then
                    Inr (sel, sur\<lparr> Levels := UGameplayStatics_LoadStreamLevel E
                                               (WorldAssetPackageName lv) True True (Levels sur),
                                   Trace := Trace sur
                                   @ [Log_Loading_level (WorldAssetPackageName lv),
                                      LoadStreamLevel (WorldAssetPackageName lv) True True] \<rparr>)
                  else
                    let sel1 = sel\<lparr> m_specs :=
                                 (m_specs sel)[unat sceneId := spec\<lparr> loaded := True \<rparr>] \<rparr>
                    in case ValidateLevel E h (unat sceneId) sel1 sur of
                         Inl e \<Rightarrow> Inl e
                       | Inr (ok, sur1) \<Rightarrow> ApplyScene_activate World (unat sceneId) sel1 sur1)
           else ApplyScene_activate World (unat sceneId) sel sur)"


subsection \<open>What the specification says \<^verbatim>\<open>OnLoadedSchema\<close> does with one scene\<close>

text \<open>
  The name of a scene and the streaming level found for a name; both are
  only used where the string is readable and the search succeeds.
\<close>

definition scene_name :: "heap \<Rightarrow> RemoteParameters \<Rightarrow> string" where
  "scene_name h sc = (case load_string h (name sc) of Inr s \<Rightarrow> s | Inl e \<Rightarrow> [])"

definition found_level :: "Engine \<Rightarrow> (addr \<rightharpoonup> ULevelStreaming) \<Rightarrow> UWorld \<Rightarrow> string \<Rightarrow> addr" where
  "found_level E ls World nm =
     (case findStreamingLevelByName E ls World nm of Inr p \<Rightarrow> p | Inl e \<Rightarrow> 0)"

text \<open>
  A scene needs no loading when no streaming level has its name, and is
  loaded when its level is; its level root is the script actor of its level,
  null without a level.
\<close>

definition scene_ready :: "(addr \<rightharpoonup> ULevelStreaming) \<Rightarrow> addr \<Rightarrow> bool" where
  "scene_ready ls level =
     (level = 0 \<or> (case ls level of Some lv \<Rightarrow> IsLevelLoaded lv | None \<Rightarrow> False))"

definition level_root :: "(addr \<rightharpoonup> ULevelStreaming) \<Rightarrow> addr \<Rightarrow> actor" where
  "level_root ls level =
     (if level = 0 then 0
      else case ls level of Some lv \<Rightarrow> LevelScriptActor lv | None \<Rightarrow> 0)"

text \<open>
  Following the specification: a ready scene is validated at once, which is
  logged, by comparing the parameter count and the hash it declares with
  those that introspection of its roots produces, and a failed validation is
  logged as an error and nothing more; a scene whose level is not loaded is
  skipped, which is logged.
\<close>

definition expected_scene_trace ::
  "Engine \<Rightarrow> heap \<Rightarrow> UWorld \<Rightarrow> (addr \<rightharpoonup> ULevelStreaming) \<Rightarrow> RemoteParameters \<Rightarrow> event list" where
  "expected_scene_trace E h World ls sc =
     (let nm = scene_name h sc;
          level = found_level E ls World nm
      in if scene_ready ls level then
           Log_Validating_schema nm (nParameters sc)
             # (let roots = [PersistentLevelScriptActor World, level_root ls level]
                in if nParameters sc = IntrospectedCount E roots
                      \<and> hash sc = IntrospectedHash E roots
                   then [] else [Error_Failed_to_validate nm])
         else [Log_Skipping_validation nm])"

text \<open>
  Following the specification, the binding of the scene afterwards: the
  level found, the persistent root, the hash and the parameter count of the
  schema; it is loaded when the scene is ready, and not loaded, its
  validation being left to the \<^verbatim>\<open>ApplyScene\<close> that finds the level
  loaded, when it is not.
\<close>

definition expected_spec ::
  "Engine \<Rightarrow> heap \<Rightarrow> UWorld \<Rightarrow> (addr \<rightharpoonup> ULevelStreaming) \<Rightarrow> RemoteParameters \<Rightarrow> SchemaSpec
    \<Rightarrow> SchemaSpec" where
  "expected_spec E h World ls sc old =
     (let level = found_level E ls World (scene_name h sc)
      in old\<lparr> streamingLevel := level, persistentRoot := PersistentLevelScriptActor World,
               spec_hash := hash sc, spec_nParameters := nParameters sc,
               loaded := scene_ready ls level \<rparr>)"

text \<open>
  Inputs used in the examples below: a schema with the scenes Base and
  Forest, a world whose one streaming level is Forest, not yet loaded, and
  the same level once it is loaded. The engine of the example queues a
  request to load a level and returns with the streaming levels as they
  were. Its introspection finds three parameters with the hash 2 whatever
  the roots, so that Forest is valid and Base is not; in the second engine
  it finds four, so that Forest is not valid either.
\<close>

definition scenario_heap :: heap where
  "scenario_heap =
     [30 \<mapsto> SceneArray [Some \<lparr> name = 31, nParameters = 0, parameters = 0, hash = 1 \<rparr>,
                         Some \<lparr> name = 32, nParameters = 3, parameters = 0, hash = 2 \<rparr>],
      31 \<mapsto> CString ''Base'',
      32 \<mapsto> CString ''Forest'']"

definition scenario_schema :: Schema where
  "scenario_schema = \<lparr> nChannels = 0, channels = 0, nScenes = 2, scenes = 30 \<rparr>"

definition scenario_world :: UWorld where
  "scenario_world = \<lparr> PersistentLevelScriptActor = 50, StreamingLevels = [100] \<rparr>"

definition forest_unloaded :: ULevelStreaming where
  "forest_unloaded = \<lparr> WorldAssetPackageName = ''Forest'', StreamingLevelsPrefix = None,
      IsLevelLoaded = False, LevelScriptActor = 0, ShouldBeVisible = False \<rparr>"

definition forest_loaded :: ULevelStreaming where
  "forest_loaded = \<lparr> WorldAssetPackageName = ''Forest'', StreamingLevelsPrefix = None,
      IsLevelLoaded = True, LevelScriptActor = 60, ShouldBeVisible = False \<rparr>"

definition scenario_engine :: Engine where
  "scenario_engine = \<lparr> GetShortName = (\<lambda>s. s), RemoveFromStart = (\<lambda>s prefix. s),
      FString_equal = (\<lambda>a b. a = b),
      UGameplayStatics_LoadStreamLevel = (\<lambda>nm visible block ls. ls),
      IntrospectedCount = (\<lambda>roots. 3), IntrospectedHash = (\<lambda>roots. 2) \<rparr>"


definition fresh_spec :: SchemaSpec where
  "fresh_spec = \<lparr> streamingLevel = 0, persistentRoot = 0, spec_hash = 0,
      spec_nParameters = 0, loaded = False \<rparr>"

definition new_selector :: SceneSelector where
  "new_selector = \<lparr> m_specs = [], Schema_stored = scenario_schema \<rparr>"

definition scenario_specs :: "SchemaSpec list" where
  "scenario_specs =
     [\<lparr> streamingLevel = 0, persistentRoot = 50, spec_hash = 1, spec_nParameters = 0,
        loaded = True \<rparr>,
      \<lparr> streamingLevel = 100, persistentRoot = 50, spec_hash = 2, spec_nParameters = 3,
        loaded = False \<rparr>]"

definition scenario_selector :: SceneSelector where
  "scenario_selector = \<lparr> m_specs = scenario_specs, Schema_stored = scenario_schema \<rparr>"

definition scenario_surroundings :: Surroundings where
  "scenario_surroundings = \<lparr> Levels = [100 \<mapsto> forest_unloaded], Trace = [] \<rparr>"





section \<open>RenderStreamEditorModule.cpp: generating a scene\<close>

text \<open>
  \<^verbatim>\<open>FRenderStreamExposedParameterEntry\<close> and the members of
  \<^verbatim>\<open>URenderStreamChannelCacheAsset\<close> that \<^verbatim>\<open>GenerateScene\<close> reads. The
  members \<^verbatim>\<open>Min\<close> and \<^verbatim>\<open>Max\<close> carry a suffix.
\<close>

record FRenderStreamExposedParameterEntry =
  Group :: string
  DisplayName :: string
  Key :: string
  Min_value :: float
  Max_value :: float
  Step :: float
  DefaultValue :: float
  Options :: "string list"
  DmxOffset :: "32 word"
  DmxType :: "32 word"

record URenderStreamChannelCacheAsset =
  Level :: string
  ExposedParams :: "FRenderStreamExposedParameterEntry list"

text \<open>
  Memory with its allocator: the heap and the address the next allocation
  gets. \<^verbatim>\<open>malloc\<close> and \<^verbatim>\<open>_strdup\<close> always succeed here; the source does
  not test their results.
\<close>

record memory =
  cells :: heap
  brk :: addr

definition allocate :: "block \<Rightarrow> memory \<Rightarrow> addr \<times> memory" where
  "allocate b m = (brk m, m\<lparr> cells := (cells m)(brk m \<mapsto> b), brk := Suc (brk m) \<rparr>)"

definition strdup :: "string \<Rightarrow> memory \<Rightarrow> addr \<times> memory" where
  "strdup s m = allocate (CString s) m"

text \<open>\<^verbatim>\<open>p[j] = a\<close> for an array of pointers and for an array of parameters.\<close>

definition store_ptr :: "addr \<Rightarrow> nat \<Rightarrow> addr \<Rightarrow> memory \<Rightarrow> mem_error + memory" where
  "store_ptr p j a m =
     (if p = 0 then Inl (InvalidAccess p)
      else case cells m p of
        Some (PtrArray xs) \<Rightarrow>
          if j < length xs then Inr (m\<lparr> cells := (cells m)(p \<mapsto> PtrArray (xs[j := Some a])) \<rparr>)
          else Inl (InvalidAccess p)
      | _ \<Rightarrow> Inl (InvalidAccess p))"

definition store_parameter :: "addr \<Rightarrow> nat \<Rightarrow> RemoteParameter \<Rightarrow> memory \<Rightarrow> mem_error + memory" where
  "store_parameter p j q m =
     (if p = 0 then Inl (InvalidAccess p)
      else case cells m p of
        Some (ParameterArray xs) \<Rightarrow>
          if j < length xs
          then Inr (m\<lparr> cells := (cells m)(p \<mapsto> ParameterArray (xs[j := Some q])) \<rparr>)
          else Inl (InvalidAccess p)
      | _ \<Rightarrow> Inl (InvalidAccess p))"

text \<open>
  The loop \<^verbatim>\<open>for (j = ...; j < nOptions; ++j) options[j] = _strdup(Options[j])\<close>,
  over the options still to be copied.
\<close>

primrec store_options :: "addr \<Rightarrow> nat \<Rightarrow> string list \<Rightarrow> memory \<Rightarrow> mem_error + memory" where
  "store_options p j [] m = Inr m"
| "store_options p j (s # ss) m =
     (case strdup s m of (a, m1) \<Rightarrow>
      case store_ptr p j a m1 of Inl e \<Rightarrow> Inl e | Inr m2 \<Rightarrow>
      store_options p (Suc j) ss m2)"

text \<open>
  The body of the loop of \<^verbatim>\<open>ConvertFields\<close> for one entry, written to
  the cell \<open>j\<close> of the parameter array at \<open>out\<close>. The count \<^verbatim>\<open>nOptions\<close> is
  the 32-bit value of \<^verbatim>\<open>Options.Num()\<close>, and the loop runs that many times.
\<close>

definition ConvertField ::
  "addr \<Rightarrow> nat \<Rightarrow> FRenderStreamExposedParameterEntry \<Rightarrow> memory \<Rightarrow> mem_error + memory" where
  "ConvertField out j entry m =
     (case strdup (Group entry) m of (g, m1) \<Rightarrow>
      case strdup (DisplayName entry) m1 of (d, m2) \<Rightarrow>
      case strdup (Key entry) m2 of (k, m3) \<Rightarrow>
      let n = (word_of_nat (length (Options entry)) :: 32 word)
      in case allocate (PtrArray (replicate (unat n) None)) m3 of (os, m4) \<Rightarrow>
         case store_options os 0 (take (unat n) (Options entry)) m4 of
           Inl e \<Rightarrow> Inl e
         | Inr m5 \<Rightarrow>
             store_parameter out j
               \<lparr> group = g, displayName = d, key = k,
                 min_value = Min_value entry, max_value = Max_value entry,
                 step = Step entry, defaultValue = DefaultValue entry,
                 nOptions = n, options = os, dmxOffset = - 1, dmxType = 2 \<rparr> m5)"

text \<open>\<^verbatim>\<open>ConvertFields(outputIterator, input)\<close>, the iterator being the cell \<open>j\<close> of \<open>out\<close>.\<close>

primrec ConvertFields ::
  "addr \<Rightarrow> nat \<Rightarrow> FRenderStreamExposedParameterEntry list \<Rightarrow> memory \<Rightarrow> mem_error + memory" where
  "ConvertFields out j [] m = Inr m"
| "ConvertFields out j (entry # input) m =
     (case ConvertField out j entry m of Inl e \<Rightarrow> Inl e | Inr m1 \<Rightarrow>
      ConvertFields out (Suc j) input m1)"

text \<open>
  \<^verbatim>\<open>GenerateScene(SceneParameters, cache, persistent)\<close>; \<open>persistent\<close> is
  \<open>None\<close> for a null pointer. \<open>SceneParameters\<close> is the struct the reference
  designates, as it is before the call: the member \<^verbatim>\<open>hash\<close> is not written.
  The sum of the two counts is a 32-bit sum.
\<close>

definition GenerateScene ::
  "Engine \<Rightarrow> RemoteParameters \<Rightarrow> URenderStreamChannelCacheAsset
    \<Rightarrow> URenderStreamChannelCacheAsset option \<Rightarrow> memory
    \<Rightarrow> mem_error + RemoteParameters \<times> memory" where
  "GenerateScene E SceneParameters cache persistent m =
     (let sceneName = GetShortName E (Level cache)
      in case strdup sceneName m of (nm, m1) \<Rightarrow>
         let nParams = (word_of_nat ((case persistent of
                                        Some p \<Rightarrow> length (ExposedParams p) | None \<Rightarrow> 0)
                                     + length (ExposedParams cache)) :: 32 word)
         in case allocate (ParameterArray (replicate (unat nParams) None)) m1 of (ps, m2) \<Rightarrow>
            let sp = SceneParameters\<lparr> name := nm, nParameters := nParams, parameters := ps \<rparr>
            in case (case persistent of
                       Some p \<Rightarrow>
                         (case ConvertFields ps 0 (ExposedParams p) m2 of
                            Inl e \<Rightarrow> Inl e
                          | Inr m3 \<Rightarrow> Inr (length (ExposedParams p), m3))
                     | None \<Rightarrow> Inr (0, m2)) of
                 Inl e \<Rightarrow> Inl e
               | Inr (offset, m3) \<Rightarrow>
                   (case ConvertFields ps offset (ExposedParams cache) m3 of
                      Inl e \<Rightarrow> Inl e
                    | Inr m4 \<Rightarrow> Inr (sp, m4)))"

subsection \<open>Reading a generated scene back\<close>

definition string_at :: "heap \<Rightarrow> addr \<Rightarrow> string option" where
  "string_at h p =
     (if p = 0 then None else case h p of Some (CString s) \<Rightarrow> Some s | _ \<Rightarrow> None)"

text \<open>
  The entry that a \<^verbatim>\<open>RemoteParameter\<close> in memory stands for: its strings and
  option strings read through its pointers, its numbers as they are.
\<close>

definition read_parameter :: "heap \<Rightarrow> RemoteParameter \<Rightarrow> FRenderStreamExposedParameterEntry option" where
  "read_parameter h q =
     (case (string_at h (group q), string_at h (displayName q), string_at h (key q),
            ptr_cells h (options q) (unat (nOptions q))) of
        (Some g, Some d, Some k, Some os) \<Rightarrow>
          (case those (map (string_at h) os) of
             Some ss \<Rightarrow>
               Some \<lparr> Group = g, DisplayName = d, Key = k,
                      Min_value = min_value q, Max_value = max_value q, Step = step q,
                      DefaultValue = defaultValue q, Options = ss,
                      DmxOffset = dmxOffset q, DmxType = dmxType q \<rparr>
           | None \<Rightarrow> None)
      | _ \<Rightarrow> None)"

definition read_parameters ::
  "heap \<Rightarrow> RemoteParameters \<Rightarrow> FRenderStreamExposedParameterEntry list option" where
  "read_parameters h sc =
     (case parameter_cells h (parameters sc) (unat (nParameters sc)) of
        None \<Rightarrow> None
      | Some qs \<Rightarrow> those (map (read_parameter h) qs))"

text \<open>The allocator is sound when address 0 and all addresses from \<open>brk\<close> on are free.\<close>

definition allocator_ok :: "memory \<Rightarrow> bool" where
  "allocator_ok m = (0 < brk m \<and> (\<forall>a. brk m \<le> a \<longrightarrow> cells m a = None))"

text \<open>Inputs used in the examples below.\<close>

definition fog_entry :: FRenderStreamExposedParameterEntry where
  "fog_entry = \<lparr> Group = ''Weather'', DisplayName = ''Fog'', Key = ''Fog'',
      Min_value = 0, Max_value = 1, Step = 1, DefaultValue = 0, Options = [''Off'', ''On''],
      DmxOffset = - 1, DmxType = 2 \<rparr>"

definition gain_entry :: FRenderStreamExposedParameterEntry where
  "gain_entry = \<lparr> Group = ''Light'', DisplayName = ''Gain'', Key = ''Gain'',
      Min_value = - 1, Max_value = 1, Step = 1 / 1000, DefaultValue = 1 / 2, Options = [],
      DmxOffset = - 1, DmxType = 2 \<rparr>"

definition main_cache :: URenderStreamChannelCacheAsset where
  "main_cache = \<lparr> Level = ''Main'', ExposedParams = [gain_entry] \<rparr>"

definition forest_cache :: URenderStreamChannelCacheAsset where
  "forest_cache = \<lparr> Level = ''Forest'', ExposedParams = [fog_entry] \<rparr>"

definition empty_memory :: memory where
  "empty_memory = \<lparr> cells = Map.empty, brk = 1 \<rparr>"

definition garbage_scene :: RemoteParameters where
  "garbage_scene = \<lparr> name = 77, nParameters = 99, parameters = 55, hash = 1234 \<rparr>"

text \<open>
  From \<open>m\<close> to \<open>m'\<close> the allocator stays sound and every block that is live
  in \<open>m\<close> is the same in \<open>m'\<close>, except perhaps those at the addresses \<open>A\<close>.
\<close>

definition unchanged_except :: "addr set \<Rightarrow> memory \<Rightarrow> memory \<Rightarrow> bool" where
  "unchanged_except A m m' =
     (allocator_ok m' \<and> (\<forall>a. a \<notin> A \<longrightarrow> cells m a \<noteq> None \<longrightarrow> cells m' a = cells m a))"

text \<open>The exposed parameters of the persistent cache, none when there is no such cache.\<close>

definition persistent_params ::
  "URenderStreamChannelCacheAsset option \<Rightarrow> FRenderStreamExposedParameterEntry list" where
  "persistent_params persistent = (case persistent of Some p \<Rightarrow> ExposedParams p | None \<Rightarrow> [])"

section \<open>Frame submission: fence counter\<close>




section \<open>Frame submission: normalized sub-rectangle\<close>

lemma real_unat_uint: "real (unat (w::32 word)) = real_of_int (uint w)"
  by simp

lemma float_div_bounds:
  assumes m: "mono rnd" and z: "rnd 0 = 0" and o: "rnd 1 = 1"
    and a: "0 \<le> a" and ab: "a \<le> b" and bw: "b \<le> w" and w: "1 \<le> w"
  shows "0 \<le> float_div rnd (rnd a) (rnd w)
       \<and> float_div rnd (rnd a) (rnd w) \<le> float_div rnd (rnd b) (rnd w)
       \<and> float_div rnd (rnd b) (rnd w) \<le> 1"
proof -
  have rw: "1 \<le> rnd w" using monoD [OF m w] o by simp
  have ra: "0 \<le> rnd a" using monoD [OF m a] z by simp
  have rab: "rnd a \<le> rnd b" by (rule monoD [OF m ab])
  have rbw: "rnd b \<le> rnd w" by (rule monoD [OF m bw])
  have q0: "0 \<le> rnd a / rnd w" using ra rw by simp
  have q1: "rnd a / rnd w \<le> rnd b / rnd w" using rab rw by (simp add: divide_right_mono)
  have q2: "rnd b / rnd w \<le> 1" using rbw rw by simp
  show ?thesis
    unfolding float_div_def
    using monoD [OF m q0] monoD [OF m q1] monoD [OF m q2] z o by simp
qed

text \<open>
  C4. The source image has positive width and height, and the viewport
  rectangle lies inside it with \<open>Min \<le> Max\<close> on both axes. Float rounding
  \<open>rnd\<close> is any monotone function that leaves 0 and 1 unchanged, as
  round-to-nearest does. Then the two pairs handed to
  \<^verbatim>\<open>RSUCHelpers::SendFrame\<close> are the four quotients
  \<open>Min.X / SizeX\<close>, \<open>Max.X / SizeX\<close>, \<open>Min.Y / SizeY\<close>, \<open>Max.Y / SizeY\<close>,
  each operand converted to float and the quotient rounded, and
  \<open>0 \<le> ULeft \<le> URight \<le> 1\<close> and \<open>0 \<le> VTop \<le> VBottom \<le> 1\<close>.
\<close>

theorem normalized_subrect:
  assumes m: "mono rnd" and z: "rnd 0 = 0" and o: "rnd 1 = 1"
    and sx: "0 < unat (GetSizeX t)" and sy: "0 < unat (GetSizeY t)"
    and x: "0 \<le> sint (X (Min_pt r))" "sint (X (Min_pt r)) \<le> sint (X (Max_pt r))"
           "sint (X (Max_pt r)) \<le> uint (GetSizeX t)"
    and y: "0 \<le> sint (Y (Min_pt r))" "sint (Y (Min_pt r)) \<le> sint (Y (Max_pt r))"
           "sint (Y (Max_pt r)) \<le> uint (GetSizeY t)"
  shows "ULeftRight_arg (fst (SendFrame_RenderingThread rnd d t r s))
           = (rnd (rnd (real_of_int (sint (X (Min_pt r)))) / rnd (real (unat (GetSizeX t)))),
              rnd (rnd (real_of_int (sint (X (Max_pt r)))) / rnd (real (unat (GetSizeX t)))))
       \<and> VTopBottom_arg (fst (SendFrame_RenderingThread rnd d t r s))
           = (rnd (rnd (real_of_int (sint (Y (Min_pt r)))) / rnd (real (unat (GetSizeY t)))),
              rnd (rnd (real_of_int (sint (Y (Max_pt r)))) / rnd (real (unat (GetSizeY t)))))
       \<and> 0 \<le> fst (ULeftRight_arg (fst (SendFrame_RenderingThread rnd d t r s)))
       \<and> fst (ULeftRight_arg (fst (SendFrame_RenderingThread rnd d t r s)))
            \<le> snd (ULeftRight_arg (fst (SendFrame_RenderingThread rnd d t r s)))
       \<and> snd (ULeftRight_arg (fst (SendFrame_RenderingThread rnd d t r s))) \<le> 1
       \<and> 0 \<le> fst (VTopBottom_arg (fst (SendFrame_RenderingThread rnd d t r s)))
       \<and> fst (VTopBottom_arg (fst (SendFrame_RenderingThread rnd d t r s)))
            \<le> snd (VTopBottom_arg (fst (SendFrame_RenderingThread rnd d t r s)))
       \<and> snd (VTopBottom_arg (fst (SendFrame_RenderingThread rnd d t r s))) \<le> 1"
proof -
  let ?call = "fst (SendFrame_RenderingThread rnd d t r s)"
  have U: "ULeftRight_arg ?call
      = (float_div rnd (float_of_int32 rnd (X (Min_pt r))) (float_of_uint32 rnd (GetSizeX t)),
         float_div rnd (float_of_int32 rnd (X (Max_pt r))) (float_of_uint32 rnd (GetSizeX t)))"
    by (simp add: SendFrame_RenderingThread_def Let_def)
  have V: "VTopBottom_arg ?call
      = (float_div rnd (float_of_int32 rnd (Y (Min_pt r))) (float_of_uint32 rnd (GetSizeY t)),
         float_div rnd (float_of_int32 rnd (Y (Max_pt r))) (float_of_uint32 rnd (GetSizeY t)))"
    by (simp add: SendFrame_RenderingThread_def Let_def)
  have bx: "real_of_int (sint (X (Max_pt r))) \<le> real (unat (GetSizeX t))"
    using x(3) real_unat_uint [of "GetSizeX t"] by linarith
  have by': "real_of_int (sint (Y (Max_pt r))) \<le> real (unat (GetSizeY t))"
    using y(3) real_unat_uint [of "GetSizeY t"] by linarith
  have ax: "0 \<le> real_of_int (sint (X (Min_pt r)))"
           "real_of_int (sint (X (Min_pt r))) \<le> real_of_int (sint (X (Max_pt r)))"
           "1 \<le> real (unat (GetSizeX t))"
    using x(1,2) sx by linarith+
  have ay: "0 \<le> real_of_int (sint (Y (Min_pt r)))"
           "real_of_int (sint (Y (Min_pt r))) \<le> real_of_int (sint (Y (Max_pt r)))"
           "1 \<le> real (unat (GetSizeY t))"
    using y(1,2) sy by linarith+
  have BX: "0 \<le> fst (ULeftRight_arg ?call)
          \<and> fst (ULeftRight_arg ?call) \<le> snd (ULeftRight_arg ?call)
          \<and> snd (ULeftRight_arg ?call) \<le> 1"
    unfolding U fst_conv snd_conv float_of_int32_def float_of_uint32_def
    by (rule float_div_bounds [OF m z o ax(1) ax(2) bx ax(3)])
  have BY: "0 \<le> fst (VTopBottom_arg ?call)
          \<and> fst (VTopBottom_arg ?call) \<le> snd (VTopBottom_arg ?call)
          \<and> snd (VTopBottom_arg ?call) \<le> 1"
    unfolding V fst_conv snd_conv float_of_int32_def float_of_uint32_def
    by (rule float_div_bounds [OF m z o ay(1) ay(2) by' ay(3)])
  have EU: "ULeftRight_arg ?call
           = (rnd (rnd (real_of_int (sint (X (Min_pt r)))) / rnd (real (unat (GetSizeX t)))),
              rnd (rnd (real_of_int (sint (X (Max_pt r)))) / rnd (real (unat (GetSizeX t)))))"
    unfolding U float_div_def float_of_int32_def float_of_uint32_def by (rule refl)
  have EV: "VTopBottom_arg ?call
           = (rnd (rnd (real_of_int (sint (Y (Min_pt r)))) / rnd (real (unat (GetSizeY t)))),
              rnd (rnd (real_of_int (sint (Y (Max_pt r)))) / rnd (real (unat (GetSizeY t)))))"
    unfolding V float_div_def float_of_int32_def float_of_uint32_def by (rule refl)
  show ?thesis using BX BY EU EV by blast
qed

theorem normalized_subrect_witness:
  "ULeftRight_arg (fst (SendFrame_RenderingThread (\<lambda>x. x) () atlas_texture right_half
      bound_stream)) = (1 / 2, 1)
   \<and> VTopBottom_arg (fst (SendFrame_RenderingThread (\<lambda>x. x) () atlas_texture right_half
      bound_stream)) = (0, 1)
   \<and> ULeftRight_arg (fst (SendFrame_RenderingThread round_eighths () atlas_texture
      right_two_thirds bound_stream)) = (3 / 8, 1)
   \<and> VTopBottom_arg (fst (SendFrame_RenderingThread round_eighths () atlas_texture
      right_two_thirds bound_stream)) = (0, 1)"
proof -
  have m: "mono (\<lambda>x::real. x)" by (simp add: mono_def)
  have m8: "mono round_eighths"
    by (auto simp: mono_def round_eighths_def intro!: divide_right_mono floor_mono)
  have z8: "round_eighths 0 = 0" "round_eighths 1 = 1"
    by (simp_all add: round_eighths_def)
  have h: "0 < unat (GetSizeX atlas_texture)" "0 < unat (GetSizeY atlas_texture)"
    "0 \<le> sint (X (Min_pt right_half))"
    "sint (X (Min_pt right_half)) \<le> sint (X (Max_pt right_half))"
    "sint (X (Max_pt right_half)) \<le> uint (GetSizeX atlas_texture)"
    "0 \<le> sint (Y (Min_pt right_half))"
    "sint (Y (Min_pt right_half)) \<le> sint (Y (Max_pt right_half))"
    "sint (Y (Max_pt right_half)) \<le> uint (GetSizeY atlas_texture)"
    by (simp_all add: atlas_texture_def right_half_def)
  have h8: "0 < unat (GetSizeX atlas_texture)" "0 < unat (GetSizeY atlas_texture)"
    "0 \<le> sint (X (Min_pt right_two_thirds))"
    "sint (X (Min_pt right_two_thirds)) \<le> sint (X (Max_pt right_two_thirds))"
    "sint (X (Max_pt right_two_thirds)) \<le> uint (GetSizeX atlas_texture)"
    "0 \<le> sint (Y (Min_pt right_two_thirds))"
    "sint (Y (Min_pt right_two_thirds)) \<le> sint (Y (Max_pt right_two_thirds))"
    "sint (Y (Max_pt right_two_thirds)) \<le> uint (GetSizeY atlas_texture)"
    by (simp_all add: atlas_texture_def right_two_thirds_def)
  have v: "real_of_int (sint (X (Min_pt right_half))) = 1920"
    "real_of_int (sint (X (Max_pt right_half))) = 3840"
    "real_of_int (sint (Y (Min_pt right_half))) = 0"
    "real_of_int (sint (Y (Max_pt right_half))) = 1080"
    "real (unat (GetSizeX atlas_texture)) = 3840"
    "real (unat (GetSizeY atlas_texture)) = 1080"
    by (simp_all add: atlas_texture_def right_half_def)
  have v8: "real_of_int (sint (X (Min_pt right_two_thirds))) = 1280"
    "real_of_int (sint (X (Max_pt right_two_thirds))) = 3840"
    "real_of_int (sint (Y (Min_pt right_two_thirds))) = 0"
    "real_of_int (sint (Y (Max_pt right_two_thirds))) = 1080"
    by (simp_all add: right_two_thirds_def)
  have r8: "round_eighths 1280 = 1280" "round_eighths 3840 = 3840" "round_eighths 1080 = 1080"
    "round_eighths (1280 / 3840) = 3 / 8"
    by (simp_all add: round_eighths_def)
  have A: "ULeftRight_arg (fst (SendFrame_RenderingThread (\<lambda>x. x) () atlas_texture right_half
              bound_stream)) = (1 / 2, 1)
         \<and> VTopBottom_arg (fst (SendFrame_RenderingThread (\<lambda>x. x) () atlas_texture right_half
              bound_stream)) = (0, 1)"
    using normalized_subrect [of "\<lambda>x. x" atlas_texture right_half "()" bound_stream,
        OF m refl refl h]
    unfolding v by simp
  have B: "ULeftRight_arg (fst (SendFrame_RenderingThread round_eighths () atlas_texture
              right_two_thirds bound_stream)) = (3 / 8, 1)
         \<and> VTopBottom_arg (fst (SendFrame_RenderingThread round_eighths () atlas_texture
              right_two_thirds bound_stream)) = (0, 1)"
    using normalized_subrect [of round_eighths atlas_texture right_two_thirds "()" bound_stream,
        OF m8 z8 h8]
    unfolding v v8 r8 by (simp add: z8)
  show ?thesis using A B by blast
qed

section \<open>Stream setup\<close>

text \<open>
  C2 (as stated, refuted). \<^verbatim>\<open>Setup\<close> on an unbound channel with handle 5,
  where the allocation of the image and the fence fails: the call returns
  false, and the channel is not what it was: the handle, the channel name,
  the clipping, the resolution and the stream name hold the arguments.
\<close>

theorem Setup_failure_counterexample:
  "fst (Setup create_fails ''wall'' \<lparr>X = 1920, Y = 1080\<rparr> ''front'' full_clipping 5
          RS_FMT_BGRA8 unbound_stream) = False
   \<and> fst (snd (Setup create_fails ''wall'' \<lparr>X = 1920, Y = 1080\<rparr> ''front'' full_clipping 5
          RS_FMT_BGRA8 unbound_stream)) \<noteq> unbound_stream
   \<and> m_handle (fst (snd (Setup create_fails ''wall'' \<lparr>X = 1920, Y = 1080\<rparr> ''front''
          full_clipping 5 RS_FMT_BGRA8 unbound_stream))) = 5"
  by (simp add: Setup_def create_fails_def unbound_stream_def full_clipping_def)

text \<open>
  C2 (amended). \<^verbatim>\<open>Setup\<close> succeeds exactly when no handle is bound, the
  allocation succeeds and the handle passed is not 0; in every other case it
  returns false. When a handle is already bound, no state is changed, so the
  first binding is untouched. When no handle is bound, the stream name, the
  channel, the clipping and the resolution are set from the arguments before
  the allocation is attempted, also when the call then fails; when the handle
  passed is 0 the channel's handle stays 0, that is unbound.
\<close>

theorem Setup_failure:
  "(m_handle s \<noteq> 0 \<longrightarrow>
      Setup create nm Resolution Channel Clipping Handle fmt s = (False, s, []))
   \<and> (fst (Setup create nm Resolution Channel Clipping Handle fmt s)
        \<longleftrightarrow> m_handle s = 0
            \<and> fst (create (m_bufTexture s) (m_fence s) Resolution fmt) \<and> Handle \<noteq> 0)
   \<and> (m_handle s = 0 \<longrightarrow>
        m_streamName (fst (snd (Setup create nm Resolution Channel Clipping Handle fmt s))) = nm
      \<and> m_channel (fst (snd (Setup create nm Resolution Channel Clipping Handle fmt s))) = Channel
      \<and> m_clipping (fst (snd (Setup create nm Resolution Channel Clipping Handle fmt s))) = Clipping
      \<and> m_resolution (fst (snd (Setup create nm Resolution Channel Clipping Handle fmt s)))
          = Resolution
      \<and> (Handle = 0 \<longrightarrow>
          m_handle (fst (snd (Setup create nm Resolution Channel Clipping Handle fmt s))) = 0))"
  by (auto simp: Setup_def Let_def split: if_splits prod.splits)

theorem Setup_failure_witness:
  "Setup create_succeeds ''other'' \<lparr>X = 1280, Y = 720\<rparr> ''back'' full_clipping 9
       RS_FMT_RGBA32F bound_stream = (False, bound_stream, [])
   \<and> \<not> fst (Setup create_succeeds ''wall'' \<lparr>X = 1920, Y = 1080\<rparr> ''front'' full_clipping 0
       RS_FMT_BGRA8 unbound_stream)
   \<and> m_handle (fst (snd (Setup create_succeeds ''wall'' \<lparr>X = 1920, Y = 1080\<rparr> ''front''
       full_clipping 0 RS_FMT_BGRA8 unbound_stream))) = 0
   \<and> m_channel (fst (snd (Setup create_succeeds ''wall'' \<lparr>X = 1920, Y = 1080\<rparr> ''front''
       full_clipping 0 RS_FMT_BGRA8 unbound_stream))) = ''front''"
proof -
  have b: "m_handle bound_stream \<noteq> 0" by (simp add: bound_stream_def)
  have u: "m_handle unbound_stream = 0" by (simp add: unbound_stream_def)
  show ?thesis
    using Setup_failure [of bound_stream create_succeeds "''other''" "\<lparr>X = 1280, Y = 720\<rparr>"
            "''back''" full_clipping 9 RS_FMT_RGBA32F]
          Setup_failure [of unbound_stream create_succeeds "''wall''" "\<lparr>X = 1920, Y = 1080\<rparr>"
            "''front''" full_clipping 0 RS_FMT_BGRA8]
          b u
    by simp
qed

section \<open>Releasing a schema\<close>

lemma released_Nil [simp]: "released [] h = h"
  by (simp add: released_def)

lemma released_append: "released (as @ bs) h = released bs (released as h)"
  by (auto simp: released_def)

lemma released_apply: "released as h a = (if a \<in> set as then None else h a)"
  by (simp add: released_def)

lemma allocations_append [simp]: "allocations (as @ bs) = allocations as @ allocations bs"
  by (simp add: allocations_def)

lemma allocations_Cons: "allocations (a # as) = (if a = 0 then allocations as else a # allocations as)"
  by (simp add: allocations_def)

lemma allocations_Nil [simp]: "allocations [] = []"
  by (simp add: allocations_def)

lemma zero_notin_allocations [simp]: "0 \<notin> set (allocations ps)"
  by (simp add: allocations_def)

lemma free_released:
  assumes "a = 0 \<or> h a \<noteq> None"
  shows "free a h = Inr (released (allocations [a]) h)"
  using assms by (auto simp: free_def allocations_def released_def fun_upd_def)

lemma take_drop_Suc_cells:
  assumes "take (Suc n) (drop i xs) = map Some cs" "i + Suc n \<le> length xs"
  shows "\<exists>c cs'. cs = c # cs' \<and> xs ! i = Some c \<and> take n (drop (Suc i) xs) = map Some cs'"
proof -
  have "i < length xs" using assms(2) by simp
  then have "drop i xs = xs ! i # drop (Suc i) xs" by (simp add: Cons_nth_drop_Suc)
  then have "xs ! i # take n (drop (Suc i) xs) = map Some cs" using assms(1) by simp
  then show ?thesis by (cases cs) auto
qed

lemma those_eq_Some: "those xs = Some ys \<longleftrightarrow> xs = map Some ys"
  by (induction xs arbitrary: ys) (auto split: option.splits)

lemma free_strings_released:
  assumes "h p = Some (PtrArray xs)" "p \<noteq> 0"
    and "take n (drop i xs) = map Some cs" "i + n \<le> length xs"
    and "distinct (allocations cs)" "\<forall>a \<in> set (allocations cs). h a \<noteq> None"
    and "p \<notin> set (allocations cs)"
  shows "free_strings p i n h = Inr (released (allocations cs) h)"
  using assms
proof (induction n arbitrary: i h cs)
  case 0
  then show ?case by simp
next
  case (Suc n)
  from take_drop_Suc_cells [OF Suc.prems(3,4)] obtain c cs' where cs: "cs = c # cs'"
    and c: "xs ! i = Some c" and rest: "take n (drop (Suc i) xs) = map Some cs'"
    by blast
  have ld: "load_ptr h p i = Inr c"
    using Suc.prems(1,2,4) c by (simp add: load_ptr_def)
  have live: "c = 0 \<or> h c \<noteq> None"
    using Suc.prems(6) cs by (cases "c = 0") (auto simp: allocations_Cons)
  let ?h1 = "released (allocations [c]) h"
  have h1p: "?h1 p = Some (PtrArray xs)"
    using Suc.prems(1,7) cs by (auto simp: released_apply allocations_Cons split: if_splits)
  have d: "distinct (allocations cs')" "p \<notin> set (allocations cs')"
    using Suc.prems(5,7) cs by (auto simp: allocations_Cons split: if_splits)
  have l: "\<forall>a \<in> set (allocations cs'). ?h1 a \<noteq> None"
    using Suc.prems(5,6) cs by (auto simp: released_apply allocations_Cons split: if_splits)
  have "free_strings p (Suc i) n ?h1 = Inr (released (allocations cs') ?h1)"
    using Suc.IH [OF h1p Suc.prems(2) rest _ d(1) l d(2)] Suc.prems(4) by simp
  then show ?case
    using ld free_released [of c h, OF live] cs
    by (simp add: released_append [symmetric] del: allocations_append)
       (simp add: allocations_def)
qed


lemma ptr_cells_SomeD:
  assumes "ptr_cells h p n = Some cs"
  shows "(n = 0 \<and> cs = []) \<or>
         (p \<noteq> 0 \<and> (\<exists>xs. h p = Some (PtrArray xs) \<and> n \<le> length xs \<and> take n xs = map Some cs))"
  using assms
  by (auto simp: ptr_cells_def those_eq_Some split: if_splits option.splits block.splits)

lemma parameter_cells_SomeD:
  assumes "parameter_cells h p n = Some cs"
  shows "(n = 0 \<and> cs = []) \<or>
         (p \<noteq> 0 \<and> (\<exists>xs. h p = Some (ParameterArray xs) \<and> n \<le> length xs \<and> take n xs = map Some cs))"
  using assms
  by (auto simp: parameter_cells_def those_eq_Some split: if_splits option.splits block.splits)

lemma scene_cells_SomeD:
  assumes "scene_cells h p n = Some cs"
  shows "(n = 0 \<and> cs = []) \<or>
         (p \<noteq> 0 \<and> (\<exists>xs. h p = Some (SceneArray xs) \<and> n \<le> length xs \<and> take n xs = map Some cs))"
  using assms
  by (auto simp: scene_cells_def those_eq_Some split: if_splits option.splits block.splits)

lemma free_strings_cells:
  assumes c: "ptr_cells h p n = Some cs"
    and d: "distinct (allocations cs)" and l: "\<forall>a \<in> set (allocations cs). h a \<noteq> None"
    and p: "p = 0 \<or> p \<notin> set (allocations cs)"
  shows "free_strings p 0 n h = Inr (released (allocations cs) h)"
proof -
  from ptr_cells_SomeD [OF c] show ?thesis
  proof
    assume "n = 0 \<and> cs = []"
    then show ?thesis by simp
  next
    assume "p \<noteq> 0 \<and> (\<exists>xs. h p = Some (PtrArray xs) \<and> n \<le> length xs \<and> take n xs = map Some cs)"
    then obtain xs where x: "p \<noteq> 0" "h p = Some (PtrArray xs)" "n \<le> length xs"
      "take n xs = map Some cs" by blast
    show ?thesis
      using free_strings_released [of h p xs n 0 cs] x d l p by simp
  qed
qed

lemma ptr_cells_frame:
  assumes "n = 0 \<or> p \<notin> set as"
  shows "ptr_cells (released as h) p n = ptr_cells h p n"
  using assms by (auto simp: ptr_cells_def released_apply)

lemma load_parameter_frame:
  assumes "p \<notin> set as"
  shows "load_parameter (released as h) p j = load_parameter h p j"
  using assms by (simp add: load_parameter_def released_apply)

lemma load_scene_frame:
  assumes "p \<notin> set as"
  shows "load_scene (released as h) p j = load_scene h p j"
  using assms by (simp add: load_scene_def released_apply)

lemma free_after_released:
  assumes "a = 0 \<or> (h a \<noteq> None \<and> a \<notin> set as)"
  shows "free a (released as h) = Inr (released (as @ allocations [a]) h)"
proof -
  have "a = 0 \<or> released as h a \<noteq> None" using assms by (auto simp: released_apply)
  from free_released [of a "released as h", OF this] show ?thesis
    by (simp add: released_append)
qed

lemma free_strings_after_released:
  assumes c: "ptr_cells h p n = Some cs"
    and d: "distinct (allocations cs)" and l: "\<forall>a \<in> set (allocations cs). h a \<noteq> None"
    and p: "p = 0 \<or> p \<notin> set (allocations cs)"
    and f: "n = 0 \<or> p \<notin> set as" and dj: "set as \<inter> set (allocations cs) = {}"
  shows "free_strings p 0 n (released as h) = Inr (released (as @ allocations cs) h)"
proof -
  have c': "ptr_cells (released as h) p n = Some cs"
    using c ptr_cells_frame [OF f] by simp
  have l': "\<forall>a \<in> set (allocations cs). released as h a \<noteq> None"
    using l dj by (auto simp: released_apply)
  from free_strings_cells [OF c' d l' p] show ?thesis
    by (simp add: released_append)
qed

lemma parameter_pointers_SomeD:
  assumes "parameter_pointers h q = Some ps"
  shows "\<exists>os. ptr_cells h (options q) (unat (nOptions q)) = Some os
            \<and> ps = [group q, displayName q, key q] @ os @ [options q]"
  using assms by (auto simp: parameter_pointers_def)

lemma set_allocations: "set (allocations ps) = set ps - {0}"
  by (auto simp: allocations_def)

lemma distinct_allocations_Cons:
  "distinct (allocations (a # ps)) = ((a = 0 \<or> a \<notin> set ps) \<and> distinct (allocations ps))"
  by (auto simp: allocations_def)

lemma free_parameter_after_released:
  assumes arr: "h p = Some (ParameterArray xs)" "p \<noteq> 0" "j < length xs" "xs ! j = Some q"
    and pp: "parameter_pointers h q = Some ps"
    and d: "distinct (allocations ps)" and l: "\<forall>a \<in> set (allocations ps). h a \<noteq> None"
    and pn: "p \<notin> set (allocations ps)" and pa: "p \<notin> set as"
    and dj: "set as \<inter> set (allocations ps) = {}"
  shows "free_parameter p j (released as h) = Inr (released (as @ allocations ps) h)"
proof -
  from parameter_pointers_SomeD [OF pp] obtain os where
    os: "ptr_cells h (options q) (unat (nOptions q)) = Some os"
    and ps: "ps = [group q, displayName q, key q] @ os @ [options q]" by blast
  let ?g = "group q" and ?d = "displayName q" and ?k = "key q" and ?o = "options q"
  let ?A1 = "as @ allocations [?g]"
  let ?A2 = "?A1 @ allocations [?d]"
  let ?A3 = "?A2 @ allocations [?k]"
  let ?A4 = "?A3 @ allocations os"
  have ld: "load_parameter (released B h) p j = Inr q" if "p \<notin> set B" for B
    using load_parameter_frame [OF that, of h j] arr by (simp add: load_parameter_def)
  have mem: "a \<in> set (allocations ps) \<longleftrightarrow> a \<noteq> 0 \<and> (a = ?g \<or> a = ?d \<or> a = ?k \<or> a = ?o \<or> a \<in> set os)" for a
    unfolding ps set_allocations by auto
  have L: "a \<noteq> 0 \<Longrightarrow> a = ?g \<or> a = ?d \<or> a = ?k \<or> a = ?o \<or> a \<in> set os
             \<Longrightarrow> h a \<noteq> None \<and> a \<notin> set as \<and> a \<noteq> p" for a
    using l dj pn mem [of a] by blast
  have D: "?g = 0 \<or> (?g \<noteq> ?d \<and> ?g \<noteq> ?k \<and> ?g \<noteq> ?o \<and> ?g \<notin> set os)"
          "?d = 0 \<or> (?d \<noteq> ?k \<and> ?d \<noteq> ?o \<and> ?d \<notin> set os)"
          "?k = 0 \<or> (?k \<noteq> ?o \<and> ?k \<notin> set os)"
          "?o = 0 \<or> ?o \<notin> set os"
          "distinct (allocations os)"
    using d unfolding ps by (auto simp add: distinct_allocations_Cons set_allocations)
  have mA: "a \<in> set ?A1 \<longleftrightarrow> a \<in> set as \<or> (a \<noteq> 0 \<and> a = ?g)"
           "a \<in> set ?A2 \<longleftrightarrow> a \<in> set as \<or> (a \<noteq> 0 \<and> (a = ?g \<or> a = ?d))"
           "a \<in> set ?A3 \<longleftrightarrow> a \<in> set as \<or> (a \<noteq> 0 \<and> (a = ?g \<or> a = ?d \<or> a = ?k))"
           "a \<in> set ?A4 \<longleftrightarrow> a \<in> set as \<or> (a \<noteq> 0 \<and> (a = ?g \<or> a = ?d \<or> a = ?k \<or> a \<in> set os))" for a
    by (auto simp: set_allocations)
  have pB: "p \<notin> set as" "p \<notin> set ?A1" "p \<notin> set ?A2" "p \<notin> set ?A3" "p \<notin> set ?A4"
    using pa L [of p] arr(2) by (auto simp: set_allocations)
  have f1: "free ?g (released as h) = Inr (released ?A1 h)"
    by (rule free_after_released) (use L [of ?g] in blast)
  have f2: "free ?d (released ?A1 h) = Inr (released ?A2 h)"
    by (rule free_after_released) (use L [of ?d] D in \<open>auto simp: set_allocations\<close>)
  have f3: "free ?k (released ?A2 h) = Inr (released ?A3 h)"
    by (rule free_after_released) (use L [of ?k] D in \<open>auto simp: set_allocations\<close>)
  have f4: "free_strings ?o 0 (unat (nOptions q)) (released ?A3 h) = Inr (released ?A4 h)"
  proof (rule free_strings_after_released [OF os])
    show "distinct (allocations os)" by (rule D(5))
    show "\<forall>a\<in>set (allocations os). h a \<noteq> None"
      unfolding set_allocations using L by blast
    show "?o = 0 \<or> ?o \<notin> set (allocations os)"
      unfolding set_allocations using D(4) by blast
    show "unat (nOptions q) = 0 \<or> ?o \<notin> set ?A3"
      using ptr_cells_SomeD [OF os] L [of ?o] D by (auto simp: set_allocations)
    show "set ?A3 \<inter> set (allocations os) = {}"
    proof -
      have "a \<in> set ?A3 \<Longrightarrow> a \<in> set (allocations os) \<Longrightarrow> False" for a
        using L [of a] D by (auto simp: set_allocations)
      then show ?thesis by blast
    qed
  qed
  have f5: "free ?o (released ?A4 h) = Inr (released (?A4 @ allocations [?o]) h)"
    by (rule free_after_released) (use L [of ?o] D in \<open>auto simp: set_allocations\<close>)
  have e: "?A4 @ allocations [?o] = as @ allocations ps"
    unfolding ps by (simp add: allocations_def)
  show ?thesis
    unfolding free_parameter_def
    by (simp only: ld [OF pB(1)] ld [OF pB(2)] ld [OF pB(3)] ld [OF pB(4)] ld [OF pB(5)]
          f1 f2 f3 f4 f5 e sum.case)
qed

lemma free_parameters_after_released:
  assumes arr: "h p = Some (ParameterArray xs)" "p \<noteq> 0"
    and cells: "take n (drop j xs) = map Some qs" "j + n \<le> length xs"
    and pp: "map (parameter_pointers h) qs = map Some pss"
    and d: "distinct (allocations (concat pss))"
    and l: "\<forall>a \<in> set (allocations (concat pss)). h a \<noteq> None"
    and pn: "p \<notin> set (allocations (concat pss))" and pa: "p \<notin> set as"
    and dj: "set as \<inter> set (allocations (concat pss)) = {}"
  shows "free_parameters p j n (released as h) = Inr (released (as @ allocations (concat pss)) h)"
  using cells pp d l pn pa dj
proof (induction n arbitrary: j qs pss as)
  case 0
  then show ?case by simp
next
  case (Suc n)
  from take_drop_Suc_cells [OF Suc.prems(1,2)] obtain q qs' where qs: "qs = q # qs'"
    and q: "xs ! j = Some q" and rest: "take n (drop (Suc j) xs) = map Some qs'"
    by blast
  from Suc.prems(3) qs obtain ps pss' where pss: "pss = ps # pss'"
    and ps: "parameter_pointers h q = Some ps"
    and pp': "map (parameter_pointers h) qs' = map Some pss'"
    by (cases pss) auto
  have c: "allocations (concat pss) = allocations ps @ allocations (concat pss')"
    unfolding pss by simp
  have d1: "distinct (allocations ps)" "distinct (allocations (concat pss'))"
    "set (allocations ps) \<inter> set (allocations (concat pss')) = {}"
    using Suc.prems(4) unfolding c by auto
  have step: "free_parameter p j (released as h) = Inr (released (as @ allocations ps) h)"
  proof (rule free_parameter_after_released [OF arr _ q ps d1(1)])
    show "j < length xs" using Suc.prems(2) by simp
    show "\<forall>a\<in>set (allocations ps). h a \<noteq> None" using Suc.prems(5) unfolding c by simp
    show "p \<notin> set (allocations ps)" using Suc.prems(6) unfolding c by simp
    show "p \<notin> set as" by (rule Suc.prems(7))
    show "set as \<inter> set (allocations ps) = {}" using Suc.prems(8) unfolding c by auto
  qed
  have "free_parameters p (Suc j) n (released (as @ allocations ps) h)
          = Inr (released ((as @ allocations ps) @ allocations (concat pss')) h)"
  proof (rule Suc.IH [OF rest _ pp' d1(2)])
    show "Suc j + n \<le> length xs" using Suc.prems(2) by simp
    show "\<forall>a\<in>set (allocations (concat pss')). h a \<noteq> None"
      using Suc.prems(5) unfolding c by simp
    show "p \<notin> set (allocations (concat pss'))" using Suc.prems(6) unfolding c by simp
    show "p \<notin> set (as @ allocations ps)" using Suc.prems(6,7) unfolding c by simp
    show "set (as @ allocations ps) \<inter> set (allocations (concat pss')) = {}"
      using Suc.prems(8) d1(3) unfolding c by auto
  qed
  then show ?case using step unfolding c by simp
qed

lemma scene_pointers_SomeD:
  assumes "scene_pointers h sc = Some ps"
  shows "\<exists>qs pss. parameter_cells h (parameters sc) (unat (nParameters sc)) = Some qs
            \<and> map (parameter_pointers h) qs = map Some pss
            \<and> ps = [name sc] @ concat pss @ [parameters sc]"
  using assms by (auto simp: scene_pointers_def those_eq_Some split: option.splits)

lemma free_scene_after_released:
  assumes arr: "h p = Some (SceneArray xs)" "p \<noteq> 0" "i < length xs" "xs ! i = Some sc"
    and sp: "scene_pointers h sc = Some ps"
    and d: "distinct (allocations ps)" and l: "\<forall>a \<in> set (allocations ps). h a \<noteq> None"
    and pn: "p \<notin> set (allocations ps)" and pa: "p \<notin> set as"
    and dj: "set as \<inter> set (allocations ps) = {}"
  shows "free_scene p i (released as h) = Inr (released (as @ allocations ps) h)"
proof -
  from scene_pointers_SomeD [OF sp] obtain qs pss where
    qs: "parameter_cells h (parameters sc) (unat (nParameters sc)) = Some qs"
    and pss: "map (parameter_pointers h) qs = map Some pss"
    and ps: "ps = [name sc] @ concat pss @ [parameters sc]" by blast
  let ?nm = "name sc" and ?pp = "parameters sc" and ?n = "unat (nParameters sc)"
  let ?A1 = "as @ allocations [?nm]"
  let ?A2 = "?A1 @ allocations (concat pss)"
  have mem: "a \<in> set (allocations ps) \<longleftrightarrow> a \<noteq> 0 \<and> (a = ?nm \<or> a = ?pp \<or> a \<in> set (concat pss))" for a
    unfolding ps set_allocations by auto
  have L: "a \<noteq> 0 \<Longrightarrow> a = ?nm \<or> a = ?pp \<or> a \<in> set (concat pss)
             \<Longrightarrow> h a \<noteq> None \<and> a \<notin> set as \<and> a \<noteq> p" for a
    using l dj pn mem [of a] by blast
  have D: "?nm = 0 \<or> (?nm \<noteq> ?pp \<and> ?nm \<notin> set (concat pss))"
          "?pp = 0 \<or> ?pp \<notin> set (concat pss)"
          "distinct (allocations (concat pss))"
    using d unfolding ps by (auto simp add: distinct_allocations_Cons set_allocations)
  have ld: "load_scene (released B h) p i = Inr sc" if "p \<notin> set B" for B
    using load_scene_frame [OF that, of h i] arr by (simp add: load_scene_def)
  have pB: "p \<notin> set as" "p \<notin> set ?A1" "p \<notin> set ?A2"
    using pa L [of p] arr(2) by (auto simp: set_allocations)
  have f1: "free ?nm (released as h) = Inr (released ?A1 h)"
    by (rule free_after_released) (use L [of ?nm] in blast)
  have f2: "free_parameters ?pp 0 ?n (released ?A1 h) = Inr (released ?A2 h)"
  proof -
    from parameter_cells_SomeD [OF qs] show ?thesis
    proof
      assume "?n = 0 \<and> qs = []"
      then show ?thesis using pss by simp
    next
      assume "?pp \<noteq> 0 \<and> (\<exists>ys. h ?pp = Some (ParameterArray ys) \<and> ?n \<le> length ys
                 \<and> take ?n ys = map Some qs)"
      then obtain ys where y: "?pp \<noteq> 0" "h ?pp = Some (ParameterArray ys)" "?n \<le> length ys"
        "take ?n ys = map Some qs" by blast
      show ?thesis
      proof (rule free_parameters_after_released [OF y(2) y(1) _ _ pss D(3)])
        show "take ?n (drop 0 ys) = map Some qs" using y(4) by simp
        show "0 + ?n \<le> length ys" using y(3) by simp
        show "\<forall>a\<in>set (allocations (concat pss)). h a \<noteq> None"
          using L by (auto simp: set_allocations)
        show "?pp \<notin> set (allocations (concat pss))"
          using D(2) y(1) by (auto simp: set_allocations)
        show "?pp \<notin> set ?A1" using L [of ?pp] D(1) y(1) by (auto simp: set_allocations)
        show "set ?A1 \<inter> set (allocations (concat pss)) = {}"
        proof -
          have "a \<in> set ?A1 \<Longrightarrow> a \<in> set (allocations (concat pss)) \<Longrightarrow> False" for a
            using L [of a] D by (auto simp: set_allocations)
          then show ?thesis by blast
        qed
      qed
    qed
  qed
  have f3: "free ?pp (released ?A2 h) = Inr (released (?A2 @ allocations [?pp]) h)"
    by (rule free_after_released) (use L [of ?pp] D in \<open>auto simp: set_allocations\<close>)
  have e: "?A2 @ allocations [?pp] = as @ allocations ps"
    unfolding ps by (simp add: allocations_def)
  show ?thesis
    unfolding free_scene_def
    by (simp only: ld [OF pB(1)] ld [OF pB(2)] ld [OF pB(3)] f1 f2 f3 e sum.case)
qed

lemma free_scenes_after_released:
  assumes arr: "h p = Some (SceneArray xs)" "p \<noteq> 0"
    and cells: "take n (drop i xs) = map Some scs" "i + n \<le> length xs"
    and pp: "map (scene_pointers h) scs = map Some pss"
    and d: "distinct (allocations (concat pss))"
    and l: "\<forall>a \<in> set (allocations (concat pss)). h a \<noteq> None"
    and pn: "p \<notin> set (allocations (concat pss))" and pa: "p \<notin> set as"
    and dj: "set as \<inter> set (allocations (concat pss)) = {}"
  shows "free_scenes p i n (released as h) = Inr (released (as @ allocations (concat pss)) h)"
  using cells pp d l pn pa dj
proof (induction n arbitrary: i scs pss as)
  case 0
  then show ?case by simp
next
  case (Suc n)
  from take_drop_Suc_cells [OF Suc.prems(1,2)] obtain sc scs' where scs: "scs = sc # scs'"
    and sc: "xs ! i = Some sc" and rest: "take n (drop (Suc i) xs) = map Some scs'"
    by blast
  from Suc.prems(3) scs obtain ps pss' where pss: "pss = ps # pss'"
    and ps: "scene_pointers h sc = Some ps"
    and pp': "map (scene_pointers h) scs' = map Some pss'"
    by (cases pss) auto
  have c: "allocations (concat pss) = allocations ps @ allocations (concat pss')"
    unfolding pss by simp
  have d1: "distinct (allocations ps)" "distinct (allocations (concat pss'))"
    "set (allocations ps) \<inter> set (allocations (concat pss')) = {}"
    using Suc.prems(4) unfolding c by auto
  have step: "free_scene p i (released as h) = Inr (released (as @ allocations ps) h)"
  proof (rule free_scene_after_released [OF arr _ sc ps d1(1)])
    show "i < length xs" using Suc.prems(2) by simp
    show "\<forall>a\<in>set (allocations ps). h a \<noteq> None" using Suc.prems(5) unfolding c by simp
    show "p \<notin> set (allocations ps)" using Suc.prems(6) unfolding c by simp
    show "p \<notin> set as" by (rule Suc.prems(7))
    show "set as \<inter> set (allocations ps) = {}" using Suc.prems(8) unfolding c by auto
  qed
  have "free_scenes p (Suc i) n (released (as @ allocations ps) h)
          = Inr (released ((as @ allocations ps) @ allocations (concat pss')) h)"
  proof (rule Suc.IH [OF rest _ pp' d1(2)])
    show "Suc i + n \<le> length xs" using Suc.prems(2) by simp
    show "\<forall>a\<in>set (allocations (concat pss')). h a \<noteq> None"
      using Suc.prems(5) unfolding c by simp
    show "p \<notin> set (allocations (concat pss'))" using Suc.prems(6) unfolding c by simp
    show "p \<notin> set (as @ allocations ps)" using Suc.prems(6,7) unfolding c by simp
    show "set (as @ allocations ps) \<inter> set (allocations (concat pss')) = {}"
      using Suc.prems(8) d1(3) unfolding c by auto
  qed
  then show ?case using step unfolding c by simp
qed

lemma schema_pointers_SomeD:
  assumes "schema_pointers h s = Some ps"
  shows "\<exists>cs scs pss. ptr_cells h (channels s) (unat (nChannels s)) = Some cs
            \<and> scene_cells h (scenes s) (unat (nScenes s)) = Some scs
            \<and> map (scene_pointers h) scs = map Some pss
            \<and> ps = cs @ [channels s] @ concat pss @ [scenes s]"
  using assms by (auto simp: schema_pointers_def those_eq_Some split: option.splits)

lemma reset_owned:
  assumes o: "owns h s as"
  shows "reset s h = Inr (clear, released as h)"
proof -
  from o obtain ps where sp: "schema_pointers h s = Some ps" and as: "as = allocations ps"
    and d: "distinct (allocations ps)" and l: "\<forall>a \<in> set (allocations ps). h a \<noteq> None"
    by (auto simp: owns_def list_all_iff split: option.splits)
  from schema_pointers_SomeD [OF sp] obtain cs scs pss where
    cs: "ptr_cells h (channels s) (unat (nChannels s)) = Some cs"
    and scs: "scene_cells h (scenes s) (unat (nScenes s)) = Some scs"
    and pss: "map (scene_pointers h) scs = map Some pss"
    and ps: "ps = cs @ [channels s] @ concat pss @ [scenes s]" by blast
  let ?c = "channels s" and ?s = "scenes s" and ?n = "unat (nScenes s)"
  let ?A1 = "allocations cs"
  let ?A2 = "?A1 @ allocations [?c]"
  let ?A3 = "?A2 @ allocations (concat pss)"
  have mem: "a \<in> set (allocations ps) \<longleftrightarrow>
              a \<noteq> 0 \<and> (a \<in> set cs \<or> a = ?c \<or> a \<in> set (concat pss) \<or> a = ?s)" for a
    unfolding ps set_allocations by auto
  have L: "a \<noteq> 0 \<Longrightarrow> a \<in> set cs \<or> a = ?c \<or> a \<in> set (concat pss) \<or> a = ?s
             \<Longrightarrow> h a \<noteq> None" for a
    using l mem [of a] by blast
  have D: "distinct (allocations cs)"
          "?c = 0 \<or> (?c \<notin> set cs \<and> ?c \<noteq> ?s \<and> ?c \<notin> set (concat pss))"
          "?s = 0 \<or> (?s \<notin> set cs \<and> ?s \<notin> set (concat pss))"
          "distinct (allocations (concat pss))"
          "\<And>a. a \<noteq> 0 \<Longrightarrow> a \<in> set cs \<Longrightarrow> a \<notin> set (concat pss)"
    using d unfolding ps by (auto simp add: distinct_allocations_Cons set_allocations)
  have f1: "free_strings ?c 0 (unat (nChannels s)) h = Inr (released ?A1 h)"
  proof (rule free_strings_cells [OF cs D(1)])
    show "\<forall>a\<in>set (allocations cs). h a \<noteq> None" using L by (auto simp: set_allocations)
    show "?c = 0 \<or> ?c \<notin> set (allocations cs)" using D(2) by (auto simp: set_allocations)
  qed
  have f2: "free ?c (released ?A1 h) = Inr (released ?A2 h)"
    by (rule free_after_released) (use L [of ?c] D(2) in \<open>auto simp: set_allocations\<close>)
  have f3: "free_scenes ?s 0 ?n (released ?A2 h) = Inr (released ?A3 h)"
  proof -
    from scene_cells_SomeD [OF scs] show ?thesis
    proof
      assume "?n = 0 \<and> scs = []"
      then show ?thesis using pss by simp
    next
      assume "?s \<noteq> 0 \<and> (\<exists>ys. h ?s = Some (SceneArray ys) \<and> ?n \<le> length ys
                 \<and> take ?n ys = map Some scs)"
      then obtain ys where y: "?s \<noteq> 0" "h ?s = Some (SceneArray ys)" "?n \<le> length ys"
        "take ?n ys = map Some scs" by blast
      show ?thesis
      proof (rule free_scenes_after_released [OF y(2) y(1) _ _ pss D(4)])
        show "take ?n (drop 0 ys) = map Some scs" using y(4) by simp
        show "0 + ?n \<le> length ys" using y(3) by simp
        show "\<forall>a\<in>set (allocations (concat pss)). h a \<noteq> None"
          using L by (auto simp: set_allocations)
        show "?s \<notin> set (allocations (concat pss))"
          using D(3) y(1) by (auto simp: set_allocations)
        show "?s \<notin> set ?A2" using D(2,3) y(1) by (auto simp: set_allocations)
        show "set ?A2 \<inter> set (allocations (concat pss)) = {}"
        proof -
          have "a \<in> set ?A2 \<Longrightarrow> a \<in> set (allocations (concat pss)) \<Longrightarrow> False" for a
            using D(2,5) by (auto simp: set_allocations)
          then show ?thesis by blast
        qed
      qed
    qed
  qed
  have f4: "free ?s (released ?A3 h) = Inr (released (?A3 @ allocations [?s]) h)"
    by (rule free_after_released) (use L [of ?s] D(2,3) in \<open>auto simp: set_allocations\<close>)
  have e: "?A3 @ allocations [?s] = as"
    unfolding as ps by (simp add: allocations_def)
  show ?thesis
    unfolding reset_def
    by (simp only: f1 f2 f3 f4 e sum.case)
qed

lemma owns_clear: "owns h clear []"
  by (simp add: owns_def schema_pointers_def clear_def ptr_cells_def scene_cells_def allocations_def)

lemma reset_clear: "reset clear h = Inr (clear, h)"
  using reset_owned [OF owns_clear, of h] by simp

text \<open>
  C8. For a schema that owns its allocations \<open>as\<close> (each of its non-null
  pointers is a live block and no block is pointed to twice), \<^verbatim>\<open>reset\<close>
  succeeds, which means that no \<^verbatim>\<open>free\<close> was given an address that was
  not live; it releases exactly the blocks \<open>as\<close>, each once, leaves every
  other block as it was, and leaves the object in the empty state. A second
  \<^verbatim>\<open>reset\<close> succeeds again and releases nothing. The destructor is
  \<^verbatim>\<open>reset\<close>, with the same effect on the heap.
\<close>

theorem reset_idempotent:
  assumes "owns h s as"
  shows "reset s h = Inr (clear, released as h)
       \<and> distinct as
       \<and> (\<forall>a \<in> set as. h a \<noteq> None \<and> released as h a = None)
       \<and> (\<forall>a. a \<notin> set as \<longrightarrow> released as h a = h a)
       \<and> reset clear (released as h) = Inr (clear, released as h)
       \<and> ScopedSchema_delete s h = Inr (released as h)
       \<and> ScopedSchema_delete clear (released as h) = Inr (released as h)"
  using assms reset_owned [OF assms] reset_clear [of "released as h"]
  by (auto simp: ScopedSchema_delete_def released_apply owns_def list_all_iff split: option.splits)

theorem reset_idempotent_witness:
  "reset example_schema example_heap
     = Inr (clear, released [2, 1, 4, 6, 7, 8, 10, 11, 9, 5, 3] example_heap)
   \<and> reset clear (released [2, 1, 4, 6, 7, 8, 10, 11, 9, 5, 3] example_heap)
     = Inr (clear, released [2, 1, 4, 6, 7, 8, 10, 11, 9, 5, 3] example_heap)
   \<and> released [2, 1, 4, 6, 7, 8, 10, 11, 9, 5, 3] example_heap 7 = None
   \<and> released [2, 1, 4, 6, 7, 8, 10, 11, 9, 5, 3] example_heap 21 = Some (CString ''back'')"
proof -
  have o: "owns example_heap example_schema [2, 1, 4, 6, 7, 8, 10, 11, 9, 5, 3]"
    by code_simp
  have v: "released [2, 1, 4, 6, 7, 8, 10, 11, 9, 5, 3] example_heap 21 = Some (CString ''back'')"
    by (simp add: released_apply example_heap_def)
  show ?thesis
    using reset_idempotent [OF o] v by simp
qed

text \<open>
  C1 (the code at a failing input). The schema \<open>example_schema\<close> owns the
  blocks 1 to 11 of \<open>example_heap\<close>. Move construction from it copies its four
  members to the new object and then runs \<^verbatim>\<open>reset\<close> on the source, which
  frees those blocks: the new object's channel array, address 1, is no longer
  live, and the destructor of the new object reads it. Move assignment to
  \<open>other_schema\<close>, which owns the blocks 20 and 21, does the same and leaves
  the block 20 live, though no object points to it any more.
\<close>

theorem ScopedSchema_move_frees_destination:
  "ScopedSchema_move example_schema example_heap
     = Inr (example_schema, clear, released [2, 1, 4, 6, 7, 8, 10, 11, 9, 5, 3] example_heap)
   \<and> released [2, 1, 4, 6, 7, 8, 10, 11, 9, 5, 3] example_heap (channels example_schema) = None
   \<and> ScopedSchema_delete example_schema
        (released [2, 1, 4, 6, 7, 8, 10, 11, 9, 5, 3] example_heap) = Inl (InvalidAccess 1)
   \<and> ScopedSchema_move_assign other_schema example_schema example_heap
     = Inr (example_schema, clear, released [2, 1, 4, 6, 7, 8, 10, 11, 9, 5, 3] example_heap)
   \<and> released [2, 1, 4, 6, 7, 8, 10, 11, 9, 5, 3] example_heap (channels other_schema)
       = Some (PtrArray [Some 21])"
proof -
  have o: "owns example_heap example_schema [2, 1, 4, 6, 7, 8, 10, 11, 9, 5, 3]"
    by code_simp
  have r: "reset example_schema example_heap
     = Inr (clear, released [2, 1, 4, 6, 7, 8, 10, 11, 9, 5, 3] example_heap)"
    by (rule reset_owned [OF o])
  have d: "ScopedSchema_delete example_schema
        (released [2, 1, 4, 6, 7, 8, 10, 11, 9, 5, 3] example_heap) = Inl (InvalidAccess 1)"
    by (simp add: ScopedSchema_delete_def reset_def example_schema_def load_ptr_def
          released_apply)
  show ?thesis
    using r d
    by (simp add: ScopedSchema_move_def ScopedSchema_move_assign_def released_apply)
       (simp add: example_schema_def other_schema_def example_heap_def)
qed

section \<open>Scene selection\<close>




text \<open>
  C6. For a scene index that is not below the number of bindings,
  \<^verbatim>\<open>ApplyScene\<close> writes the one error line and returns: the selector, with
  every binding and its \<open>loaded\<close> flag, and every streaming level, with its
  visibility, are what they were.
\<close>

theorem ApplyScene_out_of_range:
  assumes "length (m_specs sel) \<le> unat sceneId"
  shows "ApplyScene E h World sceneId sel sur
           = Inr (sel, sur\<lparr> Trace := Trace sur
                    @ [Error_scene_id (unat sceneId) (length (m_specs sel))] \<rparr>)"
  using assms by (simp add: ApplyScene_def)

theorem ApplyScene_out_of_range_witness:
  "ApplyScene scenario_engine scenario_heap scenario_world 2 scenario_selector
      \<lparr> Levels = [100 \<mapsto> forest_loaded], Trace = [] \<rparr>
     = Inr (scenario_selector,
            \<lparr> Levels = [100 \<mapsto> forest_loaded], Trace = [Error_scene_id 2 2] \<rparr>)"
proof -
  have l: "length (m_specs scenario_selector) \<le> unat (2 :: 32 word)"
    by (simp add: scenario_selector_def scenario_specs_def)
  show ?thesis
    using ApplyScene_out_of_range [OF l, of scenario_engine scenario_heap scenario_world
        "\<lparr> Levels = [100 \<mapsto> forest_loaded], Trace = [] \<rparr>"]
    by (simp add: scenario_selector_def scenario_specs_def)
qed

lemma ValidateLevel_result:
  assumes sc: "scene_at h (Schema_stored sel) i = Inr sc" and nm: "load_string h (name sc) = Inr nm"
    and i: "i < length (m_specs sel)"
    and lv: "streamingLevel (m_specs sel ! i) = 0
              \<or> Levels sur (streamingLevel (m_specs sel ! i)) \<noteq> None"
  shows "ValidateLevel E h i sel sur
           = (let levelRoot = (if streamingLevel (m_specs sel ! i) = 0 then 0
                               else LevelScriptActor
                                      (the (Levels sur (streamingLevel (m_specs sel ! i)))));
                  ok = ValidateParameters E sc [persistentRoot (m_specs sel ! i), levelRoot]
              in Inr (ok, sur\<lparr> Trace := Trace sur @ Log_Validating_schema nm (nParameters sc)
                        # (if ok then [] else [Error_Failed_to_validate nm]) \<rparr>))"
proof (cases "streamingLevel (m_specs sel ! i) = 0")
  case True
  then show ?thesis using sc nm i by (simp add: ValidateLevel_def Let_def)
next
  case False
  with lv obtain l where "Levels sur (streamingLevel (m_specs sel ! i)) = Some l" by auto
  then show ?thesis using False sc nm i by (simp add: ValidateLevel_def Let_def deref_level_def)
qed





lemma deref_level_no_check: "deref_level ls p \<noteq> Inl CheckFailed"
  by (simp add: deref_level_def split: option.splits)

lemma SetShouldBeVisible_no_check: "SetShouldBeVisible p b sur \<noteq> Inl CheckFailed"
  by (simp add: SetShouldBeVisible_def deref_level_def split: option.splits)

lemma hide_levels_no_check: "hide_levels ps sur \<noteq> Inl CheckFailed"
  by (induction ps arbitrary: sur) (auto simp: SetShouldBeVisible_no_check split: sum.splits)

lemma show_level_no_check: "show_level spec i ps sur \<noteq> Inl CheckFailed"
proof (induction ps arbitrary: sur)
  case Nil
  then show ?case by simp
next
  case (Cons p ps)
  show ?case
    using Cons.IH
    by (auto simp: SetShouldBeVisible_no_check deref_level_no_check split: sum.splits if_splits)
qed

lemma scene_at_no_check: "scene_at h S i \<noteq> Inl CheckFailed"
  by (simp add: scene_at_def split: sum.splits)

lemma load_string_no_check: "load_string h p \<noteq> Inl CheckFailed"
  by (simp add: load_string_def split: option.splits block.splits)

lemma ValidateLevel_no_check: "ValidateLevel E h i sel sur \<noteq> Inl CheckFailed"
  by (auto simp: ValidateLevel_def Let_def scene_at_no_check load_string_no_check
        deref_level_no_check split: sum.splits if_splits)

lemma ApplyScene_activate_no_check: "ApplyScene_activate World i sel sur \<noteq> Inl CheckFailed"
  by (auto simp: ApplyScene_activate_def Let_def hide_levels_no_check show_level_no_check
        split: sum.splits)

lemma ApplyScene_activate_specs:
  "ApplyScene_activate World i sel sur = Inr (sel', sur') \<Longrightarrow> sel' = sel"
  by (auto simp: ApplyScene_activate_def Let_def split: sum.splits if_splits)

lemma ApplyScene_no_check:
  assumes "\<forall>spec \<in> set (m_specs sel). streamingLevel spec = 0 \<longrightarrow> loaded spec"
  shows "ApplyScene E h World sceneId sel sur \<noteq> Inl CheckFailed"
proof (cases "unat sceneId < length (m_specs sel)")
  case False
  then show ?thesis by (simp add: ApplyScene_def)
next
  case True
  then have "m_specs sel ! unat sceneId \<in> set (m_specs sel)" by simp
  with assms have "streamingLevel (m_specs sel ! unat sceneId) = 0
                     \<longrightarrow> loaded (m_specs sel ! unat sceneId)" by blast
  then show ?thesis
    using True
    by (auto simp: ApplyScene_def Let_def ApplyScene_activate_no_check ValidateLevel_no_check
          deref_level_no_check split: sum.splits)
qed

lemma ApplyScene_keeps_ready:
  assumes inv: "\<forall>spec \<in> set (m_specs sel). streamingLevel spec = 0 \<longrightarrow> loaded spec"
    and r: "ApplyScene E h World sceneId sel sur = Inr (sel', sur')"
  shows "\<forall>spec \<in> set (m_specs sel'). streamingLevel spec = 0 \<longrightarrow> loaded spec"
proof -
  let ?i = "unat sceneId"
  have "sel' = sel \<or> sel' = sel\<lparr> m_specs := (m_specs sel)[?i := (m_specs sel ! ?i)\<lparr> loaded := True \<rparr>] \<rparr>"
    using r
    by (auto simp: ApplyScene_def Let_def split: sum.splits if_splits
          dest: ApplyScene_activate_specs)
  then show ?thesis
  proof
    assume "sel' = sel"
    then show ?thesis using inv by simp
  next
    assume s: "sel' = sel\<lparr> m_specs := (m_specs sel)[?i := (m_specs sel ! ?i)\<lparr> loaded := True \<rparr>] \<rparr>"
    show ?thesis
    proof
      fix spec assume "spec \<in> set (m_specs sel')"
      then have "spec \<in> insert ((m_specs sel ! ?i)\<lparr> loaded := True \<rparr>) (set (m_specs sel))"
        unfolding s using set_update_subset_insert by fastforce
      then show "streamingLevel spec = 0 \<longrightarrow> loaded spec"
        using inv by auto
    qed
  qed
qed

lemma OnLoadedSchema_scene_inv:
  assumes "OnLoadedSchema_scene E h World S proot i (sel, sur) = Inr (sel', sur')"
  shows "length (m_specs sel') = length (m_specs sel) \<and> i < length (m_specs sel)
       \<and> (\<forall>j. j \<noteq> i \<longrightarrow> m_specs sel' ! j = m_specs sel ! j)
       \<and> (streamingLevel (m_specs sel' ! i) = 0 \<longrightarrow> loaded (m_specs sel' ! i))"
  using assms
  by (auto simp: OnLoadedSchema_scene_def Let_def split: sum.splits if_splits)

lemma OnLoadedSchema_loop_inv:
  assumes "OnLoadedSchema_loop E h World S proot i n (sel, sur) = Inr (sel', sur')"
  shows "length (m_specs sel') = length (m_specs sel)
       \<and> (\<forall>j < i. m_specs sel' ! j = m_specs sel ! j)
       \<and> (\<forall>j. i \<le> j \<and> j < i + n \<longrightarrow>
             j < length (m_specs sel')
             \<and> (streamingLevel (m_specs sel' ! j) = 0 \<longrightarrow> loaded (m_specs sel' ! j)))"
  using assms
proof (induction n arbitrary: i sel sur)
  case 0
  then show ?case by auto
next
  case (Suc n)
  from Suc.prems obtain sel1 sur1 where
    one: "OnLoadedSchema_scene E h World S proot i (sel, sur) = Inr (sel1, sur1)"
    and rest: "OnLoadedSchema_loop E h World S proot (Suc i) n (sel1, sur1) = Inr (sel', sur')"
    by (auto split: sum.splits)
  note a = OnLoadedSchema_scene_inv [OF one]
  note b = Suc.IH [OF rest]
  show ?case
  proof (intro conjI allI impI)
    show "length (m_specs sel') = length (m_specs sel)" using a b by simp
  next
    fix j assume "j < i"
    then show "m_specs sel' ! j = m_specs sel ! j" using a b by simp
  next
    fix j assume j: "i \<le> j \<and> j < i + Suc n"
    show "j < length (m_specs sel')"
    proof (cases "j = i")
      case True then show ?thesis using a b by simp
    next
      case False
      then have "Suc i \<le> j \<and> j < Suc i + n" using j by simp
      then show ?thesis using b by blast
    qed
  next
    fix j assume j: "i \<le> j \<and> j < i + Suc n" and z: "streamingLevel (m_specs sel' ! j) = 0"
    show "loaded (m_specs sel' ! j)"
    proof (cases "j = i")
      case True
      then have "m_specs sel' ! j = m_specs sel1 ! i" using b by simp
      then show ?thesis using a z by simp
    next
      case False
      then have "Suc i \<le> j \<and> j < Suc i + n" using j by simp
      then show ?thesis using z b by blast
    qed
  qed
qed

text \<open>
  C9. When \<^verbatim>\<open>OnLoadedSchema\<close> has returned, there is one binding for each
  scene of the schema and every binding without a streaming level is marked
  loaded. Hence no later \<^verbatim>\<open>ApplyScene\<close>, whatever its arguments, fails the
  \<^verbatim>\<open>check\<close>; the property is kept by \<^verbatim>\<open>ApplyScene\<close>, so the same holds
  for the call after it.
\<close>

theorem OnLoadedSchema_check_never_fails:
  assumes "OnLoadedSchema E fresh h World S sel sur = Inr (ok, sel', sur')"
  shows "length (m_specs sel') = unat (nScenes S)
       \<and> (\<forall>spec \<in> set (m_specs sel'). streamingLevel spec = 0 \<longrightarrow> loaded spec)
       \<and> ApplyScene E1 h1 World1 sceneId sel' sur1 \<noteq> Inl CheckFailed
       \<and> (\<forall>sel2 sur2. ApplyScene E1 h1 World1 sceneId sel' sur1 = Inr (sel2, sur2) \<longrightarrow>
             (\<forall>spec \<in> set (m_specs sel2). streamingLevel spec = 0 \<longrightarrow> loaded spec)
             \<and> ApplyScene E2 h2 World2 sceneId2 sel2 sur3 \<noteq> Inl CheckFailed)"
proof -
  let ?sel1 = "sel\<lparr> m_specs := resize (unat (nScenes S)) fresh (m_specs sel) \<rparr>"
  from assms have
    loop: "OnLoadedSchema_loop E h World S (PersistentLevelScriptActor World) 0 (unat (nScenes S))
             (?sel1, sur) = Inr (sel', sur')"
    by (auto simp: OnLoadedSchema_def Let_def split: sum.splits)
  note inv = OnLoadedSchema_loop_inv [OF loop]
  have len: "length (m_specs sel') = unat (nScenes S)"
    using inv by (simp add: resize_def)
  have ready: "\<forall>spec \<in> set (m_specs sel'). streamingLevel spec = 0 \<longrightarrow> loaded spec"
  proof
    fix spec assume "spec \<in> set (m_specs sel')"
    then obtain j where "j < length (m_specs sel')" "spec = m_specs sel' ! j"
      by (auto simp: in_set_conv_nth)
    then show "streamingLevel spec = 0 \<longrightarrow> loaded spec" using inv len by simp
  qed
  have next_call: "(\<forall>spec \<in> set (m_specs sel2). streamingLevel spec = 0 \<longrightarrow> loaded spec)
             \<and> ApplyScene E2 h2 World2 sceneId2 sel2 sur3 \<noteq> Inl CheckFailed"
    if "ApplyScene E1 h1 World1 sceneId sel' sur1 = Inr (sel2, sur2)" for sel2 sur2
    using ApplyScene_keeps_ready [OF ready that] ApplyScene_no_check by blast
  show ?thesis
    using len ready ApplyScene_no_check [OF ready] next_call by blast
qed

lemma find_level_total:
  assumes "\<forall>q \<in> set ps. q \<noteq> 0 \<and> ls q \<noteq> None"
  shows "\<exists>level. find_level E ls ps nm = Inr level \<and> (level = 0 \<or> level \<in> set ps)"
  using assms
  by (induction ps) (auto simp: deref_level_def Let_def split: option.splits)

lemma found_level_valid:
  assumes "\<forall>q \<in> set (StreamingLevels World). q \<noteq> 0 \<and> ls q \<noteq> None"
  shows "findStreamingLevelByName E ls World nm = Inr (found_level E ls World nm)
       \<and> (found_level E ls World nm = 0 \<or> ls (found_level E ls World nm) \<noteq> None)"
  using find_level_total [OF assms, of E nm]
  unfolding found_level_def findStreamingLevelByName_def
  using assms by auto

lemma OnLoadedSchema_scene_result:
  assumes i: "i < length (m_specs sel)"
    and sc: "scene_at h S i = Inr sc"
    and nm: "load_string h (name sc) = Inr nm"
    and w: "\<forall>q \<in> set (StreamingLevels World). q \<noteq> 0 \<and> Levels sur q \<noteq> None"
    and st: "Schema_stored sel = S"
    and fr: "\<not> scene_ready (Levels sur) (found_level E (Levels sur) World (scene_name h sc))
               \<longrightarrow> \<not> loaded (m_specs sel ! i)"
  shows "OnLoadedSchema_scene E h World S (PersistentLevelScriptActor World) i (sel, sur)
           = Inr (sel\<lparr> m_specs := (m_specs sel)
                          [i := expected_spec E h World (Levels sur) sc (m_specs sel ! i)] \<rparr>,
                  sur\<lparr> Trace := Trace sur @ expected_scene_trace E h World (Levels sur) sc \<rparr>)"
proof -
  let ?level = "found_level E (Levels sur) World nm"
  let ?proot = "PersistentLevelScriptActor World"
  have n: "scene_name h sc = nm" using nm by (simp add: scene_name_def)
  note f = found_level_valid [OF w, of E nm]
  let ?spec = "(m_specs sel ! i)\<lparr> streamingLevel := ?level, persistentRoot := ?proot,
                     spec_hash := hash sc, spec_nParameters := nParameters sc \<rparr>"
  show ?thesis
  proof (cases "scene_ready (Levels sur) ?level")
    case False
    then obtain lv where lv: "?level \<noteq> 0" "Levels sur ?level = Some lv" "\<not> IsLevelLoaded lv"
      using f by (auto simp: scene_ready_def split: option.splits)
    have "\<not> loaded (m_specs sel ! i)" using False fr n by simp
    then have e: "expected_spec E h World (Levels sur) sc (m_specs sel ! i) = ?spec"
      using False by (simp add: expected_spec_def n Let_def)
    show ?thesis
      unfolding e
      using False i sc nm f lv
      by (simp add: OnLoadedSchema_scene_def deref_level_def expected_scene_trace_def n Let_def)
  next
    case True
    let ?sel2 = "sel\<lparr> m_specs := (m_specs sel)[i := ?spec\<lparr> loaded := True \<rparr>] \<rparr>"
    have rd: "(if ?level = 0 then Inr True
               else case deref_level (Levels sur) ?level of
                      Inl e \<Rightarrow> Inl e | Inr lv \<Rightarrow> Inr (IsLevelLoaded lv)) = Inr True"
      using True f by (auto simp: scene_ready_def deref_level_def split: option.splits)
    have e: "expected_spec E h World (Levels sur) sc (m_specs sel ! i) = ?spec\<lparr> loaded := True \<rparr>"
      using True by (simp add: expected_spec_def n Let_def)
    have s2: "Schema_stored ?sel2 = S" "i < length (m_specs ?sel2)"
      "m_specs ?sel2 ! i = ?spec\<lparr> loaded := True \<rparr>"
      using st i by simp_all
    have lr: "(if streamingLevel (m_specs ?sel2 ! i) = 0 then 0
               else LevelScriptActor (the (Levels sur (streamingLevel (m_specs ?sel2 ! i)))))
             = level_root (Levels sur) ?level"
      using f unfolding s2(3) by (auto simp: level_root_def split: option.splits)
    have v: "ValidateLevel E h i ?sel2 sur
           = Inr (ValidateParameters E sc [?proot, level_root (Levels sur) ?level],
                  sur\<lparr> Trace := Trace sur @ expected_scene_trace E h World (Levels sur) sc \<rparr>)"
    proof -
      have "ValidateLevel E h i ?sel2 sur
           = (let levelRoot = (if streamingLevel (m_specs ?sel2 ! i) = 0 then 0
                               else LevelScriptActor
                                      (the (Levels sur (streamingLevel (m_specs ?sel2 ! i)))));
                  ok = ValidateParameters E sc [persistentRoot (m_specs ?sel2 ! i), levelRoot]
              in Inr (ok, sur\<lparr> Trace := Trace sur @ Log_Validating_schema nm (nParameters sc)
                        # (if ok then [] else [Error_Failed_to_validate nm]) \<rparr>))"
      proof (rule ValidateLevel_result)
        show "scene_at h (Schema_stored ?sel2) i = Inr sc" using sc s2(1) by simp
        show "load_string h (name sc) = Inr nm" by (rule nm)
        show "i < length (m_specs ?sel2)" by (rule s2(2))
        show "streamingLevel (m_specs ?sel2 ! i) = 0
              \<or> Levels sur (streamingLevel (m_specs ?sel2 ! i)) \<noteq> None"
          using f unfolding s2(3) by simp
      qed
      then show ?thesis
        unfolding lr using True s2(3)
        by (simp add: Let_def expected_scene_trace_def ValidateParameters_def n)
    qed
    show ?thesis
      unfolding e
      using i sc nm f rd v
      by (simp add: OnLoadedSchema_scene_def Let_def)
  qed
qed

lemma OnLoadedSchema_loop_result:
  assumes cells: "\<forall>j. i \<le> j \<and> j < i + n \<longrightarrow>
                    scene_at h S j = Inr (scs ! j) \<and> (\<exists>s. load_string h (name (scs ! j)) = Inr s)"
    and len: "i + n \<le> length (m_specs sel)"
    and w: "\<forall>q \<in> set (StreamingLevels World). q \<noteq> 0 \<and> Levels sur q \<noteq> None"
    and st: "Schema_stored sel = S"
    and fr: "\<forall>j. i \<le> j \<and> j < i + n \<longrightarrow>
               \<not> scene_ready (Levels sur)
                    (found_level E (Levels sur) World (scene_name h (scs ! j)))
               \<longrightarrow> \<not> loaded (m_specs sel ! j)"
  shows "OnLoadedSchema_loop E h World S (PersistentLevelScriptActor World) i n (sel, sur)
           = Inr (sel\<lparr> m_specs :=
                     map (\<lambda>j. if i \<le> j \<and> j < i + n
                               then expected_spec E h World (Levels sur) (scs ! j) (m_specs sel ! j)
                               else m_specs sel ! j) [0..<length (m_specs sel)] \<rparr>,
                  sur\<lparr> Trace := Trace sur
                     @ concat (map (\<lambda>j. expected_scene_trace E h World (Levels sur) (scs ! j))
                                [i..<i + n]) \<rparr>)"
  using cells len w st fr
proof (induction n arbitrary: i sel sur)
  case 0
  have "map (\<lambda>j. if i \<le> j \<and> j < i + 0
                   then expected_spec E h World (Levels sur) (scs ! j) (m_specs sel ! j)
                   else m_specs sel ! j) [0..<length (m_specs sel)] = m_specs sel"
    by (intro nth_equalityI) auto
  then show ?case by simp
next
  case (Suc n)
  let ?ls = "Levels sur"
  let ?e = "\<lambda>j. expected_spec E h World ?ls (scs ! j)"
  let ?t = "\<lambda>j. expected_scene_trace E h World ?ls (scs ! j)"
  let ?sel1 = "sel\<lparr> m_specs := (m_specs sel)[i := ?e i (m_specs sel ! i)] \<rparr>"
  let ?sur1 = "sur\<lparr> Trace := Trace sur @ ?t i \<rparr>"
  have "i \<le> i \<and> i < i + Suc n" by simp
  with Suc.prems(1) obtain s where sc: "scene_at h S i = Inr (scs ! i)"
    and nm: "load_string h (name (scs ! i)) = Inr s"
    by blast
  have i: "i < length (m_specs sel)" using Suc.prems(2) by simp
  have fi: "\<not> scene_ready ?ls (found_level E ?ls World (scene_name h (scs ! i)))
               \<longrightarrow> \<not> loaded (m_specs sel ! i)"
    using Suc.prems(5) by simp
  have one: "OnLoadedSchema_scene E h World S (PersistentLevelScriptActor World) i (sel, sur)
               = Inr (?sel1, ?sur1)"
    by (rule OnLoadedSchema_scene_result [OF i sc nm Suc.prems(3) Suc.prems(4) fi])
  have c1: "\<forall>j. Suc i \<le> j \<and> j < Suc i + n \<longrightarrow>
               scene_at h S j = Inr (scs ! j) \<and> (\<exists>s. load_string h (name (scs ! j)) = Inr s)"
    using Suc.prems(1) by simp
  have l1: "Suc i + n \<le> length (m_specs ?sel1)" using Suc.prems(2) by simp
  have w1: "\<forall>q \<in> set (StreamingLevels World). q \<noteq> 0 \<and> Levels ?sur1 q \<noteq> None"
    using Suc.prems(3) by simp
  have s1: "Schema_stored ?sel1 = S" using Suc.prems(4) by simp
  have f1: "\<forall>j. Suc i \<le> j \<and> j < Suc i + n \<longrightarrow>
               \<not> scene_ready (Levels ?sur1)
                    (found_level E (Levels ?sur1) World (scene_name h (scs ! j)))
               \<longrightarrow> \<not> loaded (m_specs ?sel1 ! j)"
    using Suc.prems(5) by simp
  note ih = Suc.IH [OF c1 l1 w1 s1 f1]
  have specs: "map (\<lambda>j. if Suc i \<le> j \<and> j < Suc i + n
                          then ?e j (m_specs ?sel1 ! j) else m_specs ?sel1 ! j)
                 [0..<length (m_specs ?sel1)]
             = map (\<lambda>j. if i \<le> j \<and> j < i + Suc n
                          then ?e j (m_specs sel ! j) else m_specs sel ! j)
                 [0..<length (m_specs sel)]"
    using i by (auto simp: nth_list_update)
  have "[i..<i + Suc n] = i # [Suc i..<Suc i + n]"
    by (subst upt_conv_Cons) simp_all
  then have tr: "?t i @ concat (map ?t [Suc i..<Suc i + n]) = concat (map ?t [i..<i + Suc n])"
    by (simp only: list.map concat.simps)
  have lv1: "Levels ?sur1 = Levels sur" by simp
  have u1: "?sel1\<lparr> m_specs := ys \<rparr> = sel\<lparr> m_specs := ys \<rparr>" for ys by simp
  have u2: "?sur1\<lparr> Trace := Trace ?sur1 @ es \<rparr> = sur\<lparr> Trace := Trace sur @ (?t i @ es) \<rparr>"
    for es by simp
  have "OnLoadedSchema_loop E h World S (PersistentLevelScriptActor World) i (Suc n) (sel, sur)
          = OnLoadedSchema_loop E h World S (PersistentLevelScriptActor World) (Suc i) n
              (?sel1, ?sur1)"
    by (simp only: OnLoadedSchema_loop.simps one sum.case)
  also have "\<dots> = Inr (sel\<lparr> m_specs :=
                     map (\<lambda>j. if i \<le> j \<and> j < i + Suc n
                               then ?e j (m_specs sel ! j)
                               else m_specs sel ! j) [0..<length (m_specs sel)] \<rparr>,
                  sur\<lparr> Trace := Trace sur @ concat (map ?t [i..<i + Suc n]) \<rparr>)"
    unfolding ih unfolding lv1 u1 u2 specs tr by (rule refl)
  finally show ?case .
qed

lemma scene_cells_nth:
  assumes c: "scene_cells h p n = Some scs" and j: "j < n"
  shows "load_scene h p j = Inr (scs ! j)"
proof -
  from scene_cells_SomeD [OF c] j obtain xs where x: "p \<noteq> 0" "h p = Some (SceneArray xs)"
    "n \<le> length xs" "take n xs = map Some scs" by auto
  have "xs ! j = take n xs ! j" using j by simp
  also have "\<dots> = Some (scs ! j)"
  proof -
    have "length scs = n" using x(3,4) by (metis length_map length_take min.absorb2)
    then show ?thesis unfolding x(4) using j by simp
  qed
  finally show ?thesis using x j by (simp add: load_scene_def)
qed

lemma scene_cells_length:
  assumes c: "scene_cells h p n = Some scs"
  shows "length scs = n"
proof -
  from scene_cells_SomeD [OF c] show ?thesis
  proof
    assume "n = 0 \<and> scs = []" then show ?thesis by simp
  next
    assume "p \<noteq> 0 \<and> (\<exists>xs. h p = Some (SceneArray xs) \<and> n \<le> length xs \<and> take n xs = map Some scs)"
    then obtain xs where "n \<le> length xs" "take n xs = map Some scs" by blast
    then show ?thesis by (metis length_map length_take min.absorb2)
  qed
qed

lemma OnLoadedSchema_result:
  assumes cells: "scene_cells h (scenes S) (unat (nScenes S)) = Some scs"
    and names: "\<forall>sc \<in> set scs. \<exists>s. load_string h (name sc) = Inr s"
    and w: "\<forall>q \<in> set (StreamingLevels World). q \<noteq> 0 \<and> Levels sur q \<noteq> None"
    and st: "Schema_stored sel = S"
    and fr: "\<forall>j < length scs.
               \<not> scene_ready (Levels sur)
                    (found_level E (Levels sur) World (scene_name h (scs ! j)))
               \<longrightarrow> \<not> loaded (resize (unat (nScenes S)) fresh (m_specs sel) ! j)"
  shows "OnLoadedSchema E fresh h World S sel sur
           = Inr (True,
                  sel\<lparr> m_specs := map2 (expected_spec E h World (Levels sur)) scs
                                     (resize (unat (nScenes S)) fresh (m_specs sel)) \<rparr>,
                  sur\<lparr> Trace := Trace sur
                     @ concat (map (expected_scene_trace E h World (Levels sur)) scs) \<rparr>)"
proof -
  let ?n = "unat (nScenes S)"
  let ?xs = "resize ?n fresh (m_specs sel)"
  let ?sel1 = "sel\<lparr> m_specs := ?xs \<rparr>"
  have ls: "length scs = ?n" by (rule scene_cells_length [OF cells])
  have lx: "length ?xs = ?n" by (simp add: resize_def)
  have c: "\<forall>j. 0 \<le> j \<and> j < 0 + ?n \<longrightarrow>
              scene_at h S j = Inr (scs ! j) \<and> (\<exists>s. load_string h (name (scs ! j)) = Inr s)"
    using scene_cells_nth [OF cells] names ls by (simp add: scene_at_def)
  have l: "0 + ?n \<le> length (m_specs ?sel1)" using lx by simp
  have s1: "Schema_stored ?sel1 = S" using st by simp
  have f1: "\<forall>j. 0 \<le> j \<and> j < 0 + ?n \<longrightarrow>
               \<not> scene_ready (Levels sur)
                    (found_level E (Levels sur) World (scene_name h (scs ! j)))
               \<longrightarrow> \<not> loaded (m_specs ?sel1 ! j)"
    using fr ls by simp
  note loop = OnLoadedSchema_loop_result [OF c l w s1 f1]
  have specs: "map (\<lambda>j. if 0 \<le> j \<and> j < 0 + ?n
                          then expected_spec E h World (Levels sur) (scs ! j) (m_specs ?sel1 ! j)
                          else m_specs ?sel1 ! j) [0..<length (m_specs ?sel1)]
             = map2 (expected_spec E h World (Levels sur)) scs ?xs"
    using ls lx by (intro nth_equalityI) auto
  have tr: "concat (map (\<lambda>j. expected_scene_trace E h World (Levels sur) (scs ! j)) [0..<0 + ?n])
          = concat (map (expected_scene_trace E h World (Levels sur)) scs)"
  proof -
    have "map (\<lambda>j. expected_scene_trace E h World (Levels sur) (scs ! j)) [0..<length scs]
            = map (expected_scene_trace E h World (Levels sur)) scs"
      by (intro nth_equalityI) auto
    then show ?thesis using ls by simp
  qed
  show ?thesis
    unfolding OnLoadedSchema_def Let_def loop specs tr by simp
qed

lemma scenario_hypotheses:
  "scene_cells scenario_heap (scenes scenario_schema) (unat (nScenes scenario_schema))
     = Some [\<lparr> name = 31, nParameters = 0, parameters = 0, hash = 1 \<rparr>,
             \<lparr> name = 32, nParameters = 3, parameters = 0, hash = 2 \<rparr>]"
  "\<forall>sc \<in> set [\<lparr> name = 31, nParameters = 0, parameters = 0, hash = 1 \<rparr>,
                \<lparr> name = 32, nParameters = 3, parameters = 0, hash = 2 \<rparr>].
      \<exists>s. load_string scenario_heap (name sc) = Inr s"
  "\<forall>q \<in> set (StreamingLevels scenario_world).
      q \<noteq> 0 \<and> Levels scenario_surroundings q \<noteq> None"
  "Schema_stored new_selector = scenario_schema"
  by (simp_all add: scene_cells_def scenario_heap_def scenario_schema_def load_string_def
        scenario_world_def scenario_surroundings_def new_selector_def)

lemma new_selector_fresh:
  "\<forall>j < length [\<lparr> name = 31, nParameters = 0, parameters = 0, hash = 1 \<rparr>,
                     \<lparr> name = 32, nParameters = 3, parameters = 0, hash = (2 :: 64 word) \<rparr>].
      \<not> scene_ready (Levels sur)
           (found_level E (Levels sur) World
              (scene_name h ([\<lparr> name = 31, nParameters = 0, parameters = 0, hash = 1 \<rparr>,
                             \<lparr> name = 32, nParameters = 3, parameters = 0, hash = 2 \<rparr>] ! j)))
      \<longrightarrow> \<not> loaded (resize (unat (nScenes scenario_schema)) fresh_spec
                        (m_specs new_selector) ! j)"
  by (simp add: resize_def new_selector_def scenario_schema_def fresh_spec_def)

lemma scenario_expected:
  "map2 (expected_spec scenario_engine scenario_heap scenario_world (Levels scenario_surroundings))
     [\<lparr> name = 31, nParameters = 0, parameters = 0, hash = 1 \<rparr>,
      \<lparr> name = 32, nParameters = 3, parameters = 0, hash = 2 \<rparr>]
     (resize (unat (nScenes scenario_schema)) fresh_spec (m_specs new_selector))
   = scenario_specs"
  "concat (map (expected_scene_trace scenario_engine scenario_heap scenario_world
                  (Levels scenario_surroundings))
     [\<lparr> name = 31, nParameters = 0, parameters = 0, hash = 1 \<rparr>,
      \<lparr> name = 32, nParameters = 3, parameters = 0, hash = 2 \<rparr>])
   = [Log_Validating_schema ''Base'' 0, Error_Failed_to_validate ''Base'',
      Log_Skipping_validation ''Forest'']"
  by code_simp+

lemma scenario_loaded:
  "OnLoadedSchema scenario_engine fresh_spec scenario_heap scenario_world scenario_schema
      new_selector scenario_surroundings
     = Inr (True, scenario_selector,
            scenario_surroundings\<lparr> Trace :=
              [Log_Validating_schema ''Base'' 0, Error_Failed_to_validate ''Base'',
               Log_Skipping_validation ''Forest''] \<rparr>)"
  unfolding OnLoadedSchema_result [OF scenario_hypotheses new_selector_fresh] scenario_expected
  by (simp add: new_selector_def scenario_selector_def scenario_surroundings_def)




theorem OnLoadedSchema_check_never_fails_witness:
  "length (m_specs scenario_selector) = 2
   \<and> ApplyScene scenario_engine scenario_heap scenario_world 0 scenario_selector
        scenario_surroundings \<noteq> Inl CheckFailed
   \<and> ApplyScene scenario_engine scenario_heap scenario_world 1 scenario_selector
        scenario_surroundings \<noteq> Inl CheckFailed"
  using OnLoadedSchema_check_never_fails [OF scenario_loaded, where ?E1.0 = scenario_engine
          and ?h1.0 = scenario_heap and ?World1.0 = scenario_world and sceneId = 0
          and ?sur1.0 = scenario_surroundings]
        OnLoadedSchema_check_never_fails [OF scenario_loaded, where ?E1.0 = scenario_engine
          and ?h1.0 = scenario_heap and ?World1.0 = scenario_world and sceneId = 1
          and ?sur1.0 = scenario_surroundings]
  by (simp add: scenario_schema_def)

section \<open>Generated scenes\<close>

lemma unchanged_except_refl: "allocator_ok m \<Longrightarrow> unchanged_except A m m"
  by (simp add: unchanged_except_def)

lemma unchanged_except_trans:
  assumes "unchanged_except A m m1" "unchanged_except B m1 m2" "A \<subseteq> C" "B \<subseteq> C"
  shows "unchanged_except C m m2"
  using assms unfolding unchanged_except_def
  by (metis option.distinct(1) subsetD)

lemma unchanged_except_chain:
  assumes "unchanged_except A m m1" "unchanged_except A m1 m2"
  shows "unchanged_except A m m2"
  using unchanged_except_trans [OF assms] by simp

lemma allocate_fresh:
  assumes "allocator_ok m" "allocate b m = (a, m')"
  shows "a \<noteq> 0 \<and> cells m a = None \<and> cells m' = (cells m)(a \<mapsto> b)
       \<and> allocator_ok m' \<and> unchanged_except A m m'"
  using assms by (auto simp: allocate_def allocator_ok_def unchanged_except_def)

lemma store_ptr_ok:
  assumes "p \<noteq> 0" "cells m p = Some (PtrArray xs)" "j < length xs" "allocator_ok m"
  shows "store_ptr p j a m = Inr (m\<lparr> cells := (cells m)(p \<mapsto> PtrArray (xs[j := Some a])) \<rparr>)
       \<and> unchanged_except {p} m (m\<lparr> cells := (cells m)(p \<mapsto> PtrArray (xs[j := Some a])) \<rparr>)"
  using assms by (auto simp: store_ptr_def unchanged_except_def allocator_ok_def)

lemma store_parameter_ok:
  assumes "p \<noteq> 0" "cells m p = Some (ParameterArray xs)" "j < length xs" "allocator_ok m"
  shows "store_parameter p j q m
           = Inr (m\<lparr> cells := (cells m)(p \<mapsto> ParameterArray (xs[j := Some q])) \<rparr>)
       \<and> unchanged_except {p} m
           (m\<lparr> cells := (cells m)(p \<mapsto> ParameterArray (xs[j := Some q])) \<rparr>)"
  using assms by (auto simp: store_parameter_def unchanged_except_def allocator_ok_def)

lemma store_options_ok:
  assumes "allocator_ok m" "p \<noteq> 0" "cells m p = Some (PtrArray xs)" "j + length ss \<le> length xs"
  shows "\<exists>m' as. store_options p j ss m = Inr m' \<and> unchanged_except {p} m m'
           \<and> length as = length ss
           \<and> cells m' p = Some (PtrArray (take j xs @ map Some as @ drop (j + length ss) xs))
           \<and> map (string_at (cells m')) as = map Some ss"
  using assms
proof (induction ss arbitrary: j m xs)
  case Nil
  then show ?case by (auto simp: unchanged_except_refl)
next
  case (Cons s ss)
  obtain a m1 where st: "strdup s m = (a, m1)" by (cases "strdup s m")
  note f = allocate_fresh [OF Cons.prems(1) st [unfolded strdup_def], of "{p}"]
  have ap: "a \<noteq> p" using f Cons.prems(3) by auto
  have m1p: "cells m1 p = Some (PtrArray xs)" using f ap Cons.prems(3) by simp
  have j: "j < length xs" using Cons.prems(4) by simp
  let ?xs' = "xs[j := Some a]"
  let ?m2 = "m1\<lparr> cells := (cells m1)(p \<mapsto> PtrArray ?xs') \<rparr>"
  have sp: "store_ptr p j a m1 = Inr ?m2" "unchanged_except {p} m1 ?m2"
    using store_ptr_ok [OF Cons.prems(2) m1p j, of a] f by simp_all
  have ok2: "allocator_ok ?m2" using sp(2) by (simp add: unchanged_except_def)
  have "\<exists>m' as. store_options p (Suc j) ss ?m2 = Inr m' \<and> unchanged_except {p} ?m2 m'
           \<and> length as = length ss
           \<and> cells m' p = Some (PtrArray (take (Suc j) ?xs' @ map Some as
                                            @ drop (Suc j + length ss) ?xs'))
           \<and> map (string_at (cells m')) as = map Some ss"
    using Cons.prems(4) by (intro Cons.IH [OF ok2 Cons.prems(2)]) simp_all
  then obtain m' as where r: "store_options p (Suc j) ss ?m2 = Inr m'"
    and u: "unchanged_except {p} ?m2 m'" and la: "length as = length ss"
    and cp: "cells m' p = Some (PtrArray (take (Suc j) ?xs' @ map Some as
                                            @ drop (Suc j + length ss) ?xs'))"
    and sa: "map (string_at (cells m')) as = map Some ss"
    by blast
  have u0: "unchanged_except {p} m m1" using f by simp
  have u1: "unchanged_except {p} m m'"
    by (rule unchanged_except_chain [OF u0 unchanged_except_chain [OF sp(2) u]])
  have a2: "cells ?m2 a = Some (CString s)" using f ap by simp
  have "cells m' a = Some (CString s)"
    using u a2 ap unfolding unchanged_except_def by (metis option.distinct(1) singletonD)
  then have sa0: "string_at (cells m') a = Some s"
    using f by (simp add: string_at_def)
  have e: "take (Suc j) ?xs' @ map Some as @ drop (Suc j + length ss) ?xs'
         = take j xs @ map Some (a # as) @ drop (j + length (s # ss)) xs"
    using j by (simp add: take_Suc_conv_app_nth)
  show ?case
    apply (rule exI [of _ m'], rule exI [of _ "a # as"])
    using st sp(1) r u1 la cp sa sa0 e by simp
qed

lemma unchanged_exceptD:
  assumes "unchanged_except A m m'" "cells m a = Some b" "a \<notin> A"
  shows "cells m' a = Some b"
  using assms unfolding unchanged_except_def by (metis option.distinct(1))

lemma unat_length_word:
  assumes "n < 2 ^ 32"
  shows "unat (word_of_nat n :: 32 word) = n"
  using assms by (simp add: unat_of_nat)

lemma ConvertField_ok:
  assumes ok: "allocator_ok m"
    and out: "out \<noteq> 0" "cells m out = Some (ParameterArray ys)" "j < length ys"
    and len: "length (Options e) < 2 ^ 32"
  shows "\<exists>m' q. ConvertField out j e m = Inr m' \<and> unchanged_except {out} m m'
           \<and> cells m' out = Some (ParameterArray (ys[j := Some q]))
           \<and> read_parameter (cells m') q = Some (e\<lparr> DmxOffset := - 1, DmxType := 2 \<rparr>)"
proof -
  let ?n = "word_of_nat (length (Options e)) :: 32 word"
  have n: "unat ?n = length (Options e)" by (rule unat_length_word [OF len])
  obtain g m1 where s1: "strdup (Group e) m = (g, m1)" by (cases "strdup (Group e) m")
  obtain d m2 where s2: "strdup (DisplayName e) m1 = (d, m2)" by (cases "strdup (DisplayName e) m1")
  obtain k m3 where s3: "strdup (Key e) m2 = (k, m3)" by (cases "strdup (Key e) m2")
  obtain os m4 where s4: "allocate (PtrArray (replicate (unat ?n) None)) m3 = (os, m4)"
    by (cases "allocate (PtrArray (replicate (unat ?n) None)) m3")
  note f1 = allocate_fresh [OF ok s1 [unfolded strdup_def], of "{}"]
  then have ok1: "allocator_ok m1" by simp
  note f2 = allocate_fresh [OF ok1 s2 [unfolded strdup_def], of "{}"]
  then have ok2: "allocator_ok m2" by simp
  note f3 = allocate_fresh [OF ok2 s3 [unfolded strdup_def], of "{}"]
  then have ok3: "allocator_ok m3" by simp
  note f4 = allocate_fresh [OF ok3 s4, of "{}"]
  then have ok4: "allocator_ok m4" by simp
  have u03: "unchanged_except {} m m3"
    using f1 f2 f3 by (blast intro: unchanged_except_chain)
  have u04: "unchanged_except {} m m4"
    using f1 f2 f3 f4 by (blast intro: unchanged_except_chain)
  have g4: "cells m4 g = Some (CString (Group e))"
  proof -
    have c: "cells m1 g = Some (CString (Group e))" using f1 by simp
    have u: "unchanged_except {} m1 m4" using f2 f3 f4 by (blast intro: unchanged_except_chain)
    show ?thesis using unchanged_exceptD [OF u c] by simp
  qed
  have d4: "cells m4 d = Some (CString (DisplayName e))"
  proof -
    have c: "cells m2 d = Some (CString (DisplayName e))" using f2 by simp
    have u: "unchanged_except {} m2 m4" using f3 f4 by (blast intro: unchanged_except_chain)
    show ?thesis using unchanged_exceptD [OF u c] by simp
  qed
  have k4: "cells m4 k = Some (CString (Key e))"
  proof -
    have c: "cells m3 k = Some (CString (Key e))" using f3 by simp
    have u: "unchanged_except {} m3 m4" using f4 by simp
    show ?thesis using unchanged_exceptD [OF u c] by simp
  qed
  have o4: "cells m4 os = Some (PtrArray (replicate (unat ?n) None))" "os \<noteq> 0"
    using f4 by simp_all
  have out4: "cells m4 out = Some (ParameterArray ys)"
    using unchanged_exceptD [OF u04 out(2)] by simp
  have "\<exists>m5 as. store_options os 0 (take (unat ?n) (Options e)) m4 = Inr m5
           \<and> unchanged_except {os} m4 m5
           \<and> length as = length (take (unat ?n) (Options e))
           \<and> cells m5 os = Some (PtrArray (take 0 (replicate (unat ?n) None) @ map Some as
                 @ drop (0 + length (take (unat ?n) (Options e))) (replicate (unat ?n) None)))
           \<and> map (string_at (cells m5)) as = map Some (take (unat ?n) (Options e))"
    by (rule store_options_ok [OF ok4 o4(2) o4(1)]) simp
  then obtain m5 as where so: "store_options os 0 (take (unat ?n) (Options e)) m4 = Inr m5"
    and u45: "unchanged_except {os} m4 m5"
    and la: "length as = length (Options e)"
    and o5: "cells m5 os = Some (PtrArray (map Some as))"
    and sa: "map (string_at (cells m5)) as = map Some (Options e)"
    unfolding n by auto
  have ne: "g \<noteq> os" "d \<noteq> os" "k \<noteq> os" "out \<noteq> os"
    using g4 d4 k4 out4 o4(1) by auto
  have g5: "cells m5 g = Some (CString (Group e))"
    using unchanged_exceptD [OF u45 g4] ne by simp
  have d5: "cells m5 d = Some (CString (DisplayName e))"
    using unchanged_exceptD [OF u45 d4] ne by simp
  have k5: "cells m5 k = Some (CString (Key e))"
    using unchanged_exceptD [OF u45 k4] ne by simp
  have out5: "cells m5 out = Some (ParameterArray ys)"
    using unchanged_exceptD [OF u45 out4] ne by simp
  have ok5: "allocator_ok m5" using u45 by (simp add: unchanged_except_def)
  let ?q = "\<lparr> group = g, displayName = d, key = k,
                 min_value = Min_value e, max_value = Max_value e,
                 step = Step e, defaultValue = DefaultValue e,
                 nOptions = ?n, options = os, dmxOffset = - 1, dmxType = 2 \<rparr>"
  let ?m6 = "m5\<lparr> cells := (cells m5)(out \<mapsto> ParameterArray (ys[j := Some ?q])) \<rparr>"
  have sp: "store_parameter out j ?q m5 = Inr ?m6" "unchanged_except {out} m5 ?m6"
    using store_parameter_ok [OF out(1) out5 out(3) ok5, of ?q] by simp_all
  have run: "ConvertField out j e m = Inr ?m6"
    using s1 s2 s3 s4 so sp(1) by (simp add: ConvertField_def Let_def)
  have un: "unchanged_except {out} m ?m6"
  proof -
    have "cells ?m6 a = cells m a" if "a \<noteq> out" "cells m a \<noteq> None" for a
    proof -
      from that obtain b where b: "cells m a = Some b" by auto
      have a4: "cells m4 a = Some b" using unchanged_exceptD [OF u04 b] by simp
      have a3: "cells m3 a = Some b" using unchanged_exceptD [OF u03 b] by simp
      then have "a \<noteq> os" using f4 by auto
      then have "cells m5 a = Some b" using unchanged_exceptD [OF u45 a4] by simp
      then show ?thesis using that b by simp
    qed
    then show ?thesis using sp(2) by (simp add: unchanged_except_def)
  qed
  have neo: "g \<noteq> out" "d \<noteq> out" "k \<noteq> out" "g \<noteq> 0" "d \<noteq> 0" "k \<noteq> 0"
    using g5 d5 k5 out5 f1 f2 f3 by auto
  define h6 where "h6 = cells ?m6"
  have strs: "map (string_at h6) as = map Some (Options e)"
  proof -
    have "string_at h6 a = string_at (cells m5) a" if "a \<in> set as" for a
    proof -
      from that sa obtain s where "string_at (cells m5) a = Some s"
        by (metis (no_types, lifting) in_set_conv_nth la length_map nth_map)
      then have "a \<noteq> out" using out5 by (auto simp: string_at_def split: if_splits)
      then show ?thesis by (simp add: string_at_def h6_def)
    qed
    then have "map (string_at h6) as = map (string_at (cells m5)) as" by simp
    then show ?thesis using sa by simp
  qed
  have pc: "ptr_cells h6 os (unat ?n) = Some as"
    using o5 ne o4(2) la unfolding n h6_def
    by (auto simp: ptr_cells_def those_eq_Some)
  have sg: "string_at h6 g = Some (Group e)"
    "string_at h6 d = Some (DisplayName e)"
    "string_at h6 k = Some (Key e)"
    using g5 d5 k5 neo by (simp_all add: string_at_def h6_def)
  have th: "those (map (string_at h6) as) = Some (Options e)"
    using strs by (simp only: those_eq_Some)
  have "read_parameter h6 ?q = Some (e\<lparr> DmxOffset := - 1, DmxType := 2 \<rparr>)"
    unfolding read_parameter_def by (simp add: sg pc th)
  then have rd: "read_parameter (cells ?m6) ?q = Some (e\<lparr> DmxOffset := - 1, DmxType := 2 \<rparr>)"
    unfolding h6_def .
  show ?thesis
    using run un rd by (intro exI [of _ ?m6] exI [of _ ?q]) simp
qed

lemma string_at_stable:
  assumes s: "string_at h a = Some s"
    and pres: "\<forall>a b. h a = Some b \<longrightarrow> a \<noteq> out \<longrightarrow> h' a = Some b"
    and arr: "h out = Some (ParameterArray zs)"
  shows "string_at h' a = Some s"
proof -
  from s have a: "a \<noteq> 0" "h a = Some (CString s)"
    by (auto simp: string_at_def split: if_splits option.splits block.splits)
  then have "a \<noteq> out" using arr by auto
  then have "h' a = Some (CString s)" using pres a by blast
  then show ?thesis using a by (simp add: string_at_def)
qed

lemma ptr_cells_stable:
  assumes s: "ptr_cells h p n = Some os"
    and pres: "\<forall>a b. h a = Some b \<longrightarrow> a \<noteq> out \<longrightarrow> h' a = Some b"
    and arr: "h out = Some (ParameterArray zs)"
  shows "ptr_cells h' p n = Some os"
proof (cases "n = 0")
  case True
  then show ?thesis using s by (simp add: ptr_cells_def)
next
  case False
  with s obtain xs where x: "p \<noteq> 0" "h p = Some (PtrArray xs)"
    by (auto simp: ptr_cells_def split: if_splits option.splits block.splits)
  then have "p \<noteq> out" using arr by auto
  then have "h' p = Some (PtrArray xs)" using pres x by blast
  then show ?thesis using s x False by (simp add: ptr_cells_def)
qed

lemma read_parameter_stable:
  assumes r: "read_parameter h q = Some e"
    and pres: "\<forall>a b. h a = Some b \<longrightarrow> a \<noteq> out \<longrightarrow> h' a = Some b"
    and arr: "h out = Some (ParameterArray zs)"
  shows "read_parameter h' q = Some e"
proof -
  from r obtain g d k os ss where
    g: "string_at h (group q) = Some g" and d: "string_at h (displayName q) = Some d"
    and k: "string_at h (key q) = Some k"
    and os: "ptr_cells h (options q) (unat (nOptions q)) = Some os"
    and ss: "those (map (string_at h) os) = Some ss"
    and e: "e = \<lparr> Group = g, DisplayName = d, Key = k,
                      Min_value = min_value q, Max_value = max_value q, Step = step q,
                      DefaultValue = defaultValue q, Options = ss,
                      DmxOffset = dmxOffset q, DmxType = dmxType q \<rparr>"
    by (auto simp: read_parameter_def split: option.splits)
  have ss': "those (map (string_at h') os) = Some ss"
  proof -
    have m: "map (string_at h) os = map Some ss" using ss by (simp only: those_eq_Some)
    have "string_at h' a = string_at h a" if "a \<in> set os" for a
    proof -
      from that m obtain s where "string_at h a = Some s"
        by (metis (no_types, lifting) in_set_conv_nth length_map nth_map)
      then show ?thesis using string_at_stable [OF _ pres arr] by simp
    qed
    then have "map (string_at h') os = map (string_at h) os" by simp
    then show ?thesis using ss by (simp only:)
  qed
  show ?thesis
    unfolding read_parameter_def
    by (simp add: string_at_stable [OF g pres arr] string_at_stable [OF d pres arr]
          string_at_stable [OF k pres arr] ptr_cells_stable [OF os pres arr] ss' e)
qed

lemma unchanged_except_pres:
  assumes "unchanged_except {out} m m'"
  shows "\<forall>a b. cells m a = Some b \<longrightarrow> a \<noteq> out \<longrightarrow> cells m' a = Some b"
  using assms unfolding unchanged_except_def by (metis option.distinct(1) singletonD)

lemma ConvertFields_ok:
  assumes "allocator_ok m" "out \<noteq> 0" "cells m out = Some (ParameterArray ys)"
    and "j + length es \<le> length ys"
    and "\<forall>e \<in> set es. length (Options e) < 2 ^ 32"
  shows "\<exists>m' qs. ConvertFields out j es m = Inr m' \<and> unchanged_except {out} m m'
           \<and> length qs = length es
           \<and> cells m' out
               = Some (ParameterArray (take j ys @ map Some qs @ drop (j + length es) ys))
           \<and> map (read_parameter (cells m')) qs
               = map Some (map (\<lambda>e. e\<lparr> DmxOffset := - 1, DmxType := 2 \<rparr>) es)"
  using assms
proof (induction es arbitrary: j m ys)
  case Nil
  then show ?case by (auto simp: unchanged_except_refl)
next
  case (Cons e es)
  have j: "j < length ys" using Cons.prems(4) by simp
  have le: "length (Options e) < 2 ^ 32" using Cons.prems(5) by simp
  from ConvertField_ok [OF Cons.prems(1,2,3) j le] obtain m1 q where
    c1: "ConvertField out j e m = Inr m1" and u1: "unchanged_except {out} m m1"
    and a1: "cells m1 out = Some (ParameterArray (ys[j := Some q]))"
    and r1: "read_parameter (cells m1) q = Some (e\<lparr> DmxOffset := - 1, DmxType := 2 \<rparr>)"
    by blast
  have ok1: "allocator_ok m1" using u1 by (simp add: unchanged_except_def)
  have "\<exists>m' qs. ConvertFields out (Suc j) es m1 = Inr m' \<and> unchanged_except {out} m1 m'
           \<and> length qs = length es
           \<and> cells m' out = Some (ParameterArray (take (Suc j) (ys[j := Some q]) @ map Some qs
                                 @ drop (Suc j + length es) (ys[j := Some q])))
           \<and> map (read_parameter (cells m')) qs
               = map Some (map (\<lambda>e. e\<lparr> DmxOffset := - 1, DmxType := 2 \<rparr>) es)"
    using Cons.prems(4,5) by (intro Cons.IH [OF ok1 Cons.prems(2) a1]) simp_all
  then obtain m' qs where c2: "ConvertFields out (Suc j) es m1 = Inr m'"
    and u2: "unchanged_except {out} m1 m'" and lq: "length qs = length es"
    and a2: "cells m' out = Some (ParameterArray (take (Suc j) (ys[j := Some q]) @ map Some qs
                                 @ drop (Suc j + length es) (ys[j := Some q])))"
    and r2: "map (read_parameter (cells m')) qs
               = map Some (map (\<lambda>e. e\<lparr> DmxOffset := - 1, DmxType := 2 \<rparr>) es)"
    by blast
  have rq: "read_parameter (cells m') q = Some (e\<lparr> DmxOffset := - 1, DmxType := 2 \<rparr>)"
    by (rule read_parameter_stable [OF r1 unchanged_except_pres [OF u2] a1])
  have e: "take (Suc j) (ys[j := Some q]) @ map Some qs @ drop (Suc j + length es) (ys[j := Some q])
         = take j ys @ map Some (q # qs) @ drop (j + length (e # es)) ys"
    using j by (simp add: take_Suc_conv_app_nth)
  show ?case
    apply (rule exI [of _ m'], rule exI [of _ "q # qs"])
    using c1 c2 unchanged_except_chain [OF u1 u2] lq a2 r2 rq e by simp
qed

text \<open>
  C10. The allocator is sound and the array sizes are those of a
  \<^verbatim>\<open>TArray\<close>, below \<open>2\<^sup>3\<^sup>1\<close>. Then \<^verbatim>\<open>GenerateScene\<close> succeeds;
  \<^verbatim>\<open>nParameters\<close> is the number of exposed parameters of the persistent
  cache (none without one) plus that of the scene cache; the parameter array,
  read back through its pointers, is the persistent cache's entries followed
  by the scene cache's, in their order, each with its group, display name,
  key, minimum, maximum, step, default value and options, and with the two
  DMX members set to \<open>- 1\<close> and \<open>2\<close>; the name is the short name of the
  cache's level; \<^verbatim>\<open>hash\<close> is not written; no block that was live before
  is changed.
\<close>

theorem GenerateScene_parameters:
  assumes ok: "allocator_ok m"
    and lc: "length (ExposedParams cache) < 2 ^ 31"
    and lp: "length (persistent_params persistent) < 2 ^ 31"
    and lo: "\<forall>e \<in> set (persistent_params persistent @ ExposedParams cache).
               length (Options e) < 2 ^ 31"
  shows "\<exists>sc m'. GenerateScene E sp cache persistent m = Inr (sc, m')
           \<and> unat (nParameters sc)
               = length (persistent_params persistent) + length (ExposedParams cache)
           \<and> read_parameters (cells m') sc
               = Some (map (\<lambda>e. e\<lparr> DmxOffset := - 1, DmxType := 2 \<rparr>)
                         (persistent_params persistent @ ExposedParams cache))
           \<and> string_at (cells m') (name sc) = Some (GetShortName E (Level cache))
           \<and> hash sc = hash sp
           \<and> unchanged_except {} m m'"
proof -
  let ?P = "persistent_params persistent" and ?C = "ExposedParams cache"
  let ?conv = "\<lambda>e. e\<lparr> DmxOffset := - 1, DmxType := 2 \<rparr>"
  let ?N = "length ?P + length ?C"
  let ?n = "word_of_nat ?N :: 32 word"
  have "(2::nat) ^ 31 + 2 ^ 31 = 2 ^ 32" by simp
  then have "?N < 2 ^ 32" using lc lp by linarith
  then have n: "unat ?n = ?N" by (rule unat_length_word)
  have lo32: "\<forall>e \<in> set ?P. length (Options e) < 2 ^ 32"
             "\<forall>e \<in> set ?C. length (Options e) < 2 ^ 32"
  proof -
    have w: "x < 2 ^ 32" if "x < 2 ^ 31" for x :: nat
      using that by (rule less_trans) simp
    show "\<forall>e \<in> set ?P. length (Options e) < 2 ^ 32"
    proof
      fix e assume "e \<in> set ?P"
      then have "length (Options e) < 2 ^ 31" using lo by auto
      then show "length (Options e) < 2 ^ 32" by (rule w)
    qed
    show "\<forall>e \<in> set ?C. length (Options e) < 2 ^ 32"
    proof
      fix e assume "e \<in> set ?C"
      then have "length (Options e) < 2 ^ 31" using lo by auto
      then show "length (Options e) < 2 ^ 32" by (rule w)
    qed
  qed
  obtain nm m1 where s1: "strdup (GetShortName E (Level cache)) m = (nm, m1)"
    by (cases "strdup (GetShortName E (Level cache)) m")
  obtain ps m2 where s2: "allocate (ParameterArray (replicate ?N None)) m1 = (ps, m2)"
    by (cases "allocate (ParameterArray (replicate ?N None)) m1")
  note f1 = allocate_fresh [OF ok s1 [unfolded strdup_def], of "{}"]
  then have ok1: "allocator_ok m1" by simp
  note f2 = allocate_fresh [OF ok1 s2, of "{}"]
  then have ok2: "allocator_ok m2" by simp
  have ps: "ps \<noteq> 0" "cells m2 ps = Some (ParameterArray (replicate ?N None))"
    using f2 by simp_all
  have nm1: "cells m1 nm = Some (CString (GetShortName E (Level cache)))" "nm \<noteq> 0"
    using f1 by simp_all
  have nps: "nm \<noteq> ps" using nm1 f2 by auto
  have nm2: "cells m2 nm = Some (CString (GetShortName E (Level cache)))"
    using f2 nm1 nps by simp
  have u02: "unchanged_except {} m m2"
    using f1 f2 by (blast intro: unchanged_except_chain)
  have "\<exists>m3 qs. ConvertFields ps 0 ?P m2 = Inr m3 \<and> unchanged_except {ps} m2 m3
           \<and> length qs = length ?P
           \<and> cells m3 ps = Some (ParameterArray (take 0 (replicate ?N None) @ map Some qs
                                 @ drop (0 + length ?P) (replicate ?N None)))
           \<and> map (read_parameter (cells m3)) qs = map Some (map ?conv ?P)"
    using lo32(1) by (intro ConvertFields_ok [OF ok2 ps]) simp_all
  then obtain m3 qsP where c3: "ConvertFields ps 0 ?P m2 = Inr m3"
    and u3: "unchanged_except {ps} m2 m3" and l3: "length qsP = length ?P"
    and a3: "cells m3 ps = Some (ParameterArray (map Some qsP @ replicate (length ?C) None))"
    and r3: "map (read_parameter (cells m3)) qsP = map Some (map ?conv ?P)"
    by auto
  have ok3: "allocator_ok m3" using u3 by (simp add: unchanged_except_def)
  have "\<exists>m4 qs. ConvertFields ps (length ?P) ?C m3 = Inr m4 \<and> unchanged_except {ps} m3 m4
           \<and> length qs = length ?C
           \<and> cells m4 ps = Some (ParameterArray
                 (take (length ?P) (map Some qsP @ replicate (length ?C) None) @ map Some qs
                    @ drop (length ?P + length ?C) (map Some qsP @ replicate (length ?C) None)))
           \<and> map (read_parameter (cells m4)) qs = map Some (map ?conv ?C)"
    using lo32(2) l3 by (intro ConvertFields_ok [OF ok3 ps(1) a3]) simp_all
  then obtain m4 qsC where c4: "ConvertFields ps (length ?P) ?C m3 = Inr m4"
    and u4: "unchanged_except {ps} m3 m4" and l4: "length qsC = length ?C"
    and a4: "cells m4 ps = Some (ParameterArray (map Some (qsP @ qsC)))"
    and r4: "map (read_parameter (cells m4)) qsC = map Some (map ?conv ?C)"
    using l3 by auto
  have u24: "unchanged_except {ps} m2 m4" by (rule unchanged_except_chain [OF u3 u4])
  have r3': "map (read_parameter (cells m4)) qsP = map Some (map ?conv ?P)"
  proof -
    have "read_parameter (cells m4) q = read_parameter (cells m3) q" if "q \<in> set qsP" for q
    proof -
      from that r3 obtain e where "read_parameter (cells m3) q = Some e"
        by (metis (no_types, lifting) in_set_conv_nth l3 length_map nth_map)
      then show ?thesis
        using read_parameter_stable [OF _ unchanged_except_pres [OF u4] a3] by simp
    qed
    then have "map (read_parameter (cells m4)) qsP = map (read_parameter (cells m3)) qsP"
      by simp
    then show ?thesis using r3 by (simp only:)
  qed
  let ?sc = "sp\<lparr> name := nm, nParameters := ?n, parameters := ps \<rparr>"
  have branch: "(case persistent of
                   Some p \<Rightarrow>
                     (case ConvertFields ps 0 (ExposedParams p) m2 of
                        Inl e \<Rightarrow> Inl e
                      | Inr m3 \<Rightarrow> Inr (length (ExposedParams p), m3))
                 | None \<Rightarrow> Inr (0, m2)) = Inr (length ?P, m3)"
    using c3 by (cases persistent) (simp_all add: persistent_params_def)
  have N: "(case persistent of Some p \<Rightarrow> length (ExposedParams p) | None \<Rightarrow> 0) = length ?P"
    by (cases persistent) (simp_all add: persistent_params_def)
  have run: "GenerateScene E sp cache persistent m = Inr (?sc, m4)"
    unfolding GenerateScene_def Let_def N n
    using s1 s2 branch c4 by simp
  have pc: "parameter_cells (cells m4) ps ?N = Some (qsP @ qsC)"
    using a4 ps(1) l3 l4 by (auto simp: parameter_cells_def those_eq_Some)
  have rd: "read_parameters (cells m4) ?sc = Some (map ?conv (?P @ ?C))"
  proof -
    have "map (read_parameter (cells m4)) (qsP @ qsC) = map Some (map ?conv (?P @ ?C))"
      using r3' r4 by simp
    then have "those (map (read_parameter (cells m4)) (qsP @ qsC)) = Some (map ?conv (?P @ ?C))"
      by (simp only: those_eq_Some)
    then show ?thesis unfolding read_parameters_def using pc n by simp
  qed
  have nm4: "string_at (cells m4) (name ?sc) = Some (GetShortName E (Level cache))"
    using unchanged_exceptD [OF u24 nm2] nps nm1(2) by (simp add: string_at_def)
  have un: "unchanged_except {} m m4"
  proof -
    have "cells m4 a = cells m a" if "cells m a \<noteq> None" for a
    proof -
      from that obtain b where b: "cells m a = Some b" by auto
      have a1: "cells m1 a = Some b" using unchanged_exceptD [OF _ b, of "{}" m1] f1 by simp
      then have "a \<noteq> ps" using f2 by auto
      have "cells m2 a = Some b" using unchanged_exceptD [OF u02 b] by simp
      then show ?thesis using unchanged_exceptD [OF u24, of a b] \<open>a \<noteq> ps\<close> b by simp
    qed
    then show ?thesis using u24 by (simp add: unchanged_except_def)
  qed
  show ?thesis
    using run n rd nm4 un by (intro exI [of _ ?sc] exI [of _ m4]) simp
qed

theorem GenerateScene_parameters_witness:
  "\<exists>sc m'. GenerateScene scenario_engine garbage_scene forest_cache (Some main_cache) empty_memory
              = Inr (sc, m')
         \<and> unat (nParameters sc) = 2
         \<and> read_parameters (cells m') sc = Some [gain_entry, fog_entry]
         \<and> string_at (cells m') (name sc) = Some ''Forest''"
proof -
  have ok: "allocator_ok empty_memory" by (simp add: allocator_ok_def empty_memory_def)
  have lc: "length (ExposedParams forest_cache) < 2 ^ 31"
    and lp: "length (persistent_params (Some main_cache)) < 2 ^ 31"
    and lo: "\<forall>e \<in> set (persistent_params (Some main_cache) @ ExposedParams forest_cache).
               length (Options e) < 2 ^ 31"
    by (simp_all add: forest_cache_def main_cache_def persistent_params_def fog_entry_def
          gain_entry_def)
  have v: "map (\<lambda>e. e\<lparr> DmxOffset := - 1, DmxType := 2 \<rparr>)
             (persistent_params (Some main_cache) @ ExposedParams forest_cache)
           = [gain_entry, fog_entry]"
    "length (persistent_params (Some main_cache)) + length (ExposedParams forest_cache) = 2"
    "GetShortName scenario_engine (Level forest_cache) = ''Forest''"
    by (simp_all add: forest_cache_def main_cache_def persistent_params_def fog_entry_def
          gain_entry_def scenario_engine_def)
  show ?thesis
    using GenerateScene_parameters [OF ok lc lp lo, of scenario_engine garbage_scene]
    unfolding v by blast
qed

end
